theory Spec2Isabelle
  imports Complex_Main "HOL-Library.Word"
begin

section \<open>The diagnosis cache of OrganInsight3D (src/utils/diagnosis-cache.ts)\<close>

text \<open>
  The cache keeps diagnosis results in the browser's \<open>localStorage\<close>: one record per image
  fingerprint under the key \<open>diagnosis_cache_\<close> followed by the fingerprint, and one index
  record (the list of fingerprints) under the key \<open>diagnosis_cache_index\<close>.

  Conventions of the embedding:
  \<^item> The functions are modelled as they run in a browser. The guard
    \<open>typeof window === 'undefined'\<close> at the head of the exported functions is false there;
    during server-side rendering there is no \<open>localStorage\<close> and the guard returns
    \<open>false\<close>, \<open>null\<close>, \<open>0\<close> or \<open>[]\<close> before anything is touched.
  \<^item> \<open>localStorage\<close> is one map from keys to strings (\<open>items\<close>); the keys are built by
    concatenation as in the source, so the record of the fingerprint \<open>index\<close> and the index
    record share the key \<open>diagnosis_cache_index\<close>.
  \<^item> A stored string is observed by the code in three ways only: whether it is empty
    (\<open>if (data)\<close>), its byte size (\<open>new Blob([data]).size\<close>) and what \<open>JSON.parse\<close> makes of
    it. It is therefore represented by its byte length together with the value it parses to,
    or by its byte length alone when \<open>JSON.parse\<close> throws (\<open>js_text\<close>).
  \<^item> Values are JavaScript values as far as JSON reaches (\<open>js_value\<close>). The source casts what
    \<open>JSON.parse\<close> returns to \<open>string[]\<close> or \<open>CachedDiagnosis\<close> without a check, so the
    functions go on with whatever value was stored: property reads, comparisons and string
    concatenation follow the coercions of the language, and a \<open>TypeError\<close> is raised where
    JavaScript raises one.
  \<^item> Exceptions are values: a function that can throw returns \<open>Inl\<close> of the error, together
    with the storage as it is at the throw. \<open>localStorage.setItem\<close> may throw; the answers of
    the backing storage to the successive \<open>setItem\<close> calls are a script carried by the state
    (\<open>faults\<close>), and an exhausted script accepts every further write. \<open>getItem\<close> and
    \<open>removeItem\<close> do not throw.
  \<^item> \<open>Date.now()\<close> is the argument \<open>now\<close> of an operation (epoch milliseconds, an
    integer); one call sees one clock value. A number is a real or one of \<open>NaN\<close>,
    \<open>Infinity\<close>, \<open>-Infinity\<close>; the two zeros of a double are the one real zero.
  \<^item> Image data are base64 data URLs; a JavaScript string is a \<open>string\<close> and
    \<open>charCodeAt\<close> is \<open>of_char\<close>.
  \<^item> The byte budget and the time to live are constants of the source
    (\<open>MAX_DIAGNOSIS_CACHE_SIZE_MB\<close>, \<open>DIAGNOSIS_CACHE_EXPIRY_DAYS\<close>); the functions take them
    in a parameter record, and \<open>diagnosis_cache_params\<close> is the instance of the source. The
    record also carries three functions of the platform whose details play no part: the byte
    length of the JSON text of a value, the decimal text of a number and the number a string
    converts to. Every property is proved for all of them.
\<close>

subsection \<open>JavaScript values\<close>

datatype js_num = Finite real | NaN | PosInfinity | NegInfinity

datatype js_value =
    JUndefined
  | JNull
  | JBool bool
  | JNum js_num
  | JStr string
  | JArr "js_value list"
  | JObj "(string \<times> js_value) list"

datatype js_error = QuotaExceededError | OtherStorageError | TypeError | SyntaxError

type_synonym 'a result = "js_error + 'a"

datatype health_status = Healthy | Minor_Concerns | Diseased

record OrganDiagnosis =
  organ :: string
  healthStatus :: health_status
  disease :: string
  confidenceLevel :: js_num
  statusRating :: js_num
  detailedFindings :: string
  treatmentSuggestion :: string

fun health_status_text :: "health_status \<Rightarrow> string" where
  "health_status_text Healthy = ''Healthy''"
| "health_status_text Minor_Concerns = ''Minor Concerns''"
| "health_status_text Diseased = ''Diseased''"

text \<open>A diagnosis as the JavaScript object it is, with the properties in the order of the
  interface.\<close>

definition diagnosis_value :: "OrganDiagnosis \<Rightarrow> js_value" where
  "diagnosis_value d =
     JObj [(''organ'', JStr (organ d)),
           (''healthStatus'', JStr (health_status_text (healthStatus d))),
           (''disease'', JStr (disease d)),
           (''confidenceLevel'', JNum (confidenceLevel d)),
           (''statusRating'', JNum (statusRating d)),
           (''detailedFindings'', JStr (detailedFindings d)),
           (''treatmentSuggestion'', JStr (treatmentSuggestion d))]"

text \<open>A record of the cache as the source reads it after \<open>JSON.parse\<close>: the interface
  \<open>CachedDiagnosis\<close>, with the two times as the finite numbers that every record written by the
  cache has, and the other three properties as whatever value was stored.\<close>

record CachedDiagnosis =
  organName :: js_value
  imageHash :: js_value
  diagnosis :: js_value
  timestamp :: real
  expiresAt :: real

definition DIAGNOSIS_CACHE_PREFIX :: string where
  "DIAGNOSIS_CACHE_PREFIX = ''diagnosis_cache_''"

definition DIAGNOSIS_CACHE_INDEX_KEY :: string where
  "DIAGNOSIS_CACHE_INDEX_KEY = ''diagnosis_cache_index''"

definition DIAGNOSIS_CACHE_EXPIRY_DAYS :: int where
  "DIAGNOSIS_CACHE_EXPIRY_DAYS = 30"

definition MAX_DIAGNOSIS_CACHE_SIZE_MB :: nat where
  "MAX_DIAGNOSIS_CACHE_SIZE_MB = 10"

record cache_params =
  max_cache_bytes :: nat
  expiry_ms :: int
  json_length :: "js_value \<Rightarrow> nat"
  number_to_string :: "js_num \<Rightarrow> string"
  string_to_number :: "string \<Rightarrow> js_num"

text \<open>
  \<open>getDiagnosisCacheSize() >= MAX_DIAGNOSIS_CACHE_SIZE_MB\<close> compares
  \<open>totalSize / (1024 * 1024)\<close> with 10; the division by a power of two is exact, so the
  comparison is \<open>totalSize >= 10 * 1024 * 1024\<close> on the byte count.
\<close>

definition diagnosis_cache_params ::
  "(js_value \<Rightarrow> nat) \<Rightarrow> (js_num \<Rightarrow> string) \<Rightarrow> (string \<Rightarrow> js_num) \<Rightarrow> cache_params" where
  "diagnosis_cache_params Z N S =
     \<lparr>max_cache_bytes = MAX_DIAGNOSIS_CACHE_SIZE_MB * 1024 * 1024,
      expiry_ms = DIAGNOSIS_CACHE_EXPIRY_DAYS * 24 * 60 * 60 * 1000,
      json_length = Z, number_to_string = N, string_to_number = S\<rparr>"

text \<open>What \<open>JSON.parse(JSON.stringify(v))\<close> makes of a value: a number that is not finite
  becomes \<open>null\<close>, an \<open>undefined\<close> element of an array becomes \<open>null\<close>, and an \<open>undefined\<close>
  property is left out.\<close>

fun to_json :: "js_value \<Rightarrow> js_value" where
  "to_json (JNum n) = (case n of Finite r \<Rightarrow> JNum n | _ \<Rightarrow> JNull)"
| "to_json (JArr xs) = JArr (map (\<lambda>x. if x = JUndefined then JNull else to_json x) xs)"
| "to_json (JObj ps) =
     JObj (map (\<lambda>p. (fst p, to_json (snd p))) (filter (\<lambda>p. snd p \<noteq> JUndefined) ps))"
| "to_json JUndefined = JUndefined"
| "to_json JNull = JNull"
| "to_json (JBool b) = JBool b"
| "to_json (JStr s) = JStr s"

fun join_comma :: "string list \<Rightarrow> string" where
  "join_comma [] = []"
| "join_comma [s] = s"
| "join_comma (s # t # ts) = s @ '','' @ join_comma (t # ts)"

text \<open>\<open>ToString\<close>, as applied by \<open>DIAGNOSIS_CACHE_PREFIX + key\<close>.\<close>

fun to_string :: "cache_params \<Rightarrow> js_value \<Rightarrow> string" where
  "to_string P JUndefined = ''undefined''"
| "to_string P JNull = ''null''"
| "to_string P (JBool b) = (if b then ''true'' else ''false'')"
| "to_string P (JNum n) = number_to_string P n"
| "to_string P (JStr s) = s"
| "to_string P (JArr xs) =
     join_comma (map (\<lambda>x. if x = JUndefined \<or> x = JNull then [] else to_string P x) xs)"
| "to_string P (JObj ps) = ''[object Object]''"

text \<open>\<open>ToPrimitive\<close> and \<open>ToNumber\<close>.\<close>

fun to_primitive :: "cache_params \<Rightarrow> js_value \<Rightarrow> js_value" where
  "to_primitive P (JArr xs) = JStr (to_string P (JArr xs))"
| "to_primitive P (JObj ps) = JStr (to_string P (JObj ps))"
| "to_primitive P JUndefined = JUndefined"
| "to_primitive P JNull = JNull"
| "to_primitive P (JBool b) = JBool b"
| "to_primitive P (JNum n) = JNum n"
| "to_primitive P (JStr s) = JStr s"

fun to_number :: "cache_params \<Rightarrow> js_value \<Rightarrow> js_num" where
  "to_number P JUndefined = NaN"
| "to_number P JNull = Finite 0"
| "to_number P (JBool b) = Finite (if b then 1 else 0)"
| "to_number P (JNum n) = n"
| "to_number P (JStr s) = string_to_number P s"
| "to_number P (JArr xs) = string_to_number P (to_string P (JArr xs))"
| "to_number P (JObj ps) = string_to_number P (to_string P (JObj ps))"

text \<open>The comparison \<open>a < b\<close> of two numbers; \<open>None\<close> is the answer \<open>undefined\<close> that a \<open>NaN\<close>
  gives.\<close>

fun num_less :: "js_num \<Rightarrow> js_num \<Rightarrow> bool option" where
  "num_less NaN b = None"
| "num_less (Finite x) NaN = None"
| "num_less PosInfinity NaN = None"
| "num_less NegInfinity NaN = None"
| "num_less (Finite x) (Finite y) = Some (x < y)"
| "num_less (Finite x) PosInfinity = Some True"
| "num_less (Finite x) NegInfinity = Some False"
| "num_less PosInfinity (Finite y) = Some False"
| "num_less PosInfinity PosInfinity = Some False"
| "num_less PosInfinity NegInfinity = Some False"
| "num_less NegInfinity (Finite y) = Some True"
| "num_less NegInfinity PosInfinity = Some True"
| "num_less NegInfinity NegInfinity = Some False"

text \<open>Two strings are compared by their code units.\<close>

fun string_less :: "string \<Rightarrow> string \<Rightarrow> bool" where
  "string_less [] [] = False"
| "string_less [] (y # ys) = True"
| "string_less (x # xs) [] = False"
| "string_less (x # xs) (y # ys) =
     ((of_char x :: nat) < of_char y \<or> (x = y \<and> string_less xs ys))"

text \<open>The abstract relational comparison of the language, and the three operators the source
  uses: \<open>a < b\<close>, \<open>a > b\<close> and \<open>a <= b\<close>. An \<open>undefined\<close> comparison makes each of them false.\<close>

definition js_less :: "cache_params \<Rightarrow> js_value \<Rightarrow> js_value \<Rightarrow> bool option" where
  "js_less P a b =
     (let px = to_primitive P a; py = to_primitive P b
      in case px of
           JStr x \<Rightarrow>
             (case py of
                JStr y \<Rightarrow> Some (string_less x y)
              | _ \<Rightarrow> num_less (to_number P px) (to_number P py))
         | _ \<Rightarrow> num_less (to_number P px) (to_number P py))"

definition js_lt :: "cache_params \<Rightarrow> js_value \<Rightarrow> js_value \<Rightarrow> bool" where
  "js_lt P a b = (js_less P a b = Some True)"

definition js_gt :: "cache_params \<Rightarrow> js_value \<Rightarrow> js_value \<Rightarrow> bool" where
  "js_gt P a b = (js_less P b a = Some True)"

definition js_le :: "cache_params \<Rightarrow> js_value \<Rightarrow> js_value \<Rightarrow> bool" where
  "js_le P a b = (js_less P b a = Some False)"

definition Date_now :: "int \<Rightarrow> js_value" where
  "Date_now now = JNum (Finite (of_int now))"

text \<open>\<open>ToBoolean\<close>, as applied by \<open>if (oldestKey)\<close>.\<close>

fun to_boolean :: "js_value \<Rightarrow> bool" where
  "to_boolean JUndefined = False"
| "to_boolean JNull = False"
| "to_boolean (JBool b) = b"
| "to_boolean (JNum n) = (n \<noteq> NaN \<and> n \<noteq> Finite 0)"
| "to_boolean (JStr s) = (s \<noteq> [])"
| "to_boolean (JArr xs) = True"
| "to_boolean (JObj ps) = True"

text \<open>\<open>a === b\<close> for two values that come from two calls of \<open>JSON.parse\<close>: two arrays or
  objects are then never the same object.\<close>

fun strict_equal :: "js_value \<Rightarrow> js_value \<Rightarrow> bool" where
  "strict_equal (JArr xs) b = False"
| "strict_equal (JObj ps) b = False"
| "strict_equal (JNum n) b = (b = JNum n \<and> n \<noteq> NaN)"
| "strict_equal JUndefined b = (b = JUndefined)"
| "strict_equal JNull b = (b = JNull)"
| "strict_equal (JBool x) b = (b = JBool x)"
| "strict_equal (JStr s) b = (b = JStr s)"

text \<open>The read of a property that no prototype defines (the source reads \<open>timestamp\<close>,
  \<open>expiresAt\<close> and \<open>diagnosis\<close>): a \<open>TypeError\<close> on \<open>null\<close> and \<open>undefined\<close>, the property of an
  object that has it, and \<open>undefined\<close> otherwise.\<close>

fun get_prop :: "js_value \<Rightarrow> string \<Rightarrow> js_value result" where
  "get_prop JUndefined name = Inl TypeError"
| "get_prop JNull name = Inl TypeError"
| "get_prop (JObj ps) name = Inr (case map_of ps name of None \<Rightarrow> JUndefined | Some v \<Rightarrow> v)"
| "get_prop (JBool b) name = Inr JUndefined"
| "get_prop (JNum n) name = Inr JUndefined"
| "get_prop (JStr s) name = Inr JUndefined"
| "get_prop (JArr xs) name = Inr JUndefined"

text \<open>\<open>String.prototype.includes\<close>.\<close>

fun starts_with :: "string \<Rightarrow> string \<Rightarrow> bool" where
  "starts_with s [] = True"
| "starts_with [] (k # ks) = False"
| "starts_with (c # cs) (k # ks) = (c = k \<and> starts_with cs ks)"

fun string_includes :: "string \<Rightarrow> string \<Rightarrow> bool" where
  "string_includes [] key = (key = [])"
| "string_includes (c # cs) key = (starts_with (c # cs) key \<or> string_includes cs key)"

text \<open>The values a \<open>for (const key of index)\<close> runs through: the elements of an array, the
  characters of a string, and a \<open>TypeError\<close> for a value that is not iterable.\<close>

fun for_of :: "js_value \<Rightarrow> js_value list result" where
  "for_of (JArr xs) = Inr xs"
| "for_of (JStr s) = Inr (map (\<lambda>c. JStr [c]) s)"
| "for_of JUndefined = Inl TypeError"
| "for_of JNull = Inl TypeError"
| "for_of (JBool b) = Inl TypeError"
| "for_of (JNum n) = Inl TypeError"
| "for_of (JObj ps) = Inl TypeError"

subsection \<open>Fingerprint: generateImageHash\<close>

definition digit_char :: "nat \<Rightarrow> char" where
  "digit_char d = ''0123456789abcdefghijklmnopqrstuvwxyz'' ! d"

text \<open>\<open>Number.prototype.toString(radix)\<close> on a non-negative integer. The source calls it
  with the radix 10 (the default) and 36; for a radix outside 2 to 36 JavaScript throws a
  \<open>RangeError\<close>, and the model returns the empty string.\<close>

function toString_radix :: "nat \<Rightarrow> nat \<Rightarrow> string" where
  "toString_radix r n =
     (if r < 2 \<or> 36 < r then []
      else if n < r then [digit_char n]
      else toString_radix r (n div r) @ [digit_char (n mod r)])"
  by pat_completeness auto
termination
  by (relation "measure snd") auto

declare toString_radix.simps [simp del]

text \<open>\<open>String.prototype.substring(a, b)\<close>: both ends are clamped to the length and swapped
  when they are out of order.\<close>

definition substring :: "string \<Rightarrow> nat \<Rightarrow> nat \<Rightarrow> string" where
  "substring s a b =
     (let a' = min a (length s); b' = min b (length s);
          lo = min a' b'; hi = max a' b'
      in take (hi - lo) (drop lo s))"

text \<open>The accumulator is a 32-bit integer: \<open>hash << 5\<close> and \<open>hash & hash\<close> both apply
  \<open>ToInt32\<close>, and the sum in between is exact.\<close>

fun hash_loop :: "string \<Rightarrow> 32 word \<Rightarrow> 32 word" where
  "hash_loop [] hash = hash"
| "hash_loop (c # cs) hash = hash_loop cs ((push_bit 5 hash - hash) + of_nat (of_char c))"

definition generateImageHash :: "string \<Rightarrow> string" where
  "generateImageHash imageData =
     (let dataLength = length imageData;
          sampleSize = 5000;
          sections =
            [substring imageData 0 (min sampleSize dataLength),
             substring imageData (dataLength div 2) (dataLength div 2 + min sampleSize dataLength),
             substring imageData (nat (max 0 (int dataLength - int sampleSize))) dataLength];
          str = concat sections @ toString_radix 10 dataLength;
          hash = hash_loop str 0
      in toString_radix 36 (nat \<bar>sint hash\<bar>))"

text \<open>\<open>toLowerCase\<close> on the code units below 256: the letters A to Z, and the capital letters
  of Latin-1 (U+00C0 to U+00DE without the multiplication sign U+00D7).\<close>

definition toLowerCase :: "string \<Rightarrow> string" where
  "toLowerCase s =
     map (\<lambda>c. if ((65 :: nat) \<le> of_char c \<and> of_char c \<le> (90 :: nat)) \<or>
                 ((192 :: nat) \<le> of_char c \<and> of_char c \<le> (222 :: nat) \<and> of_char c \<noteq> (215 :: nat))
              then char_of (of_char c + (32 :: nat)) else c) s"

definition generateDiagnosisCacheKey :: "string \<Rightarrow> string \<Rightarrow> string" where
  "generateDiagnosisCacheKey organName' imageHash' = toLowerCase organName' @ ''_'' @ imageHash'"


subsection \<open>localStorage\<close>

text \<open>A stored string: one that \<open>JSON.parse\<close> reads as a value, or one on which it throws a
  \<open>SyntaxError\<close>; each with its size in bytes.\<close>

datatype js_text = Json_text js_value nat | Not_json nat

fun blob_size :: "js_text \<Rightarrow> nat" where
  "blob_size (Json_text v n) = n"
| "blob_size (Not_json n) = n"

text \<open>A text that parses is not empty; any other string is falsy exactly when it is empty.\<close>

fun truthy :: "js_text \<Rightarrow> bool" where
  "truthy (Json_text v n) = True"
| "truthy (Not_json n) = (n \<noteq> 0)"

fun JSON_parse :: "js_text \<Rightarrow> js_value result" where
  "JSON_parse (Json_text v n) = Inr v"
| "JSON_parse (Not_json n) = Inl SyntaxError"

definition JSON_stringify :: "cache_params \<Rightarrow> js_value \<Rightarrow> js_text" where
  "JSON_stringify P v = Json_text (to_json v) (json_length P (to_json v))"

record local_storage =
  items :: "string \<rightharpoonup> js_text"
  faults :: "js_error option list"

definition removeItem :: "string \<Rightarrow> local_storage \<Rightarrow> local_storage" where
  "removeItem k s = s\<lparr>items := (items s)(k := None)\<rparr>"

text \<open>\<open>setItem\<close> returns the error it throws, if any; a rejected write changes nothing.\<close>

definition setItem :: "string \<Rightarrow> js_text \<Rightarrow> local_storage \<Rightarrow> js_error option \<times> local_storage" where
  "setItem k v s =
     (case faults s of
        [] \<Rightarrow> (None, s\<lparr>items := (items s)(k \<mapsto> v)\<rparr>)
      | None # fs \<Rightarrow> (None, s\<lparr>items := (items s)(k \<mapsto> v), faults := fs\<rparr>)
      | Some e # fs \<Rightarrow> (Some e, s\<lparr>faults := fs\<rparr>))"

subsection \<open>Index\<close>

text \<open>\<open>getDiagnosisCacheIndex\<close> returns what \<open>JSON.parse\<close> returns, whatever it is; the empty
  array stands in for a missing or empty record and for one that does not parse.\<close>

definition getDiagnosisCacheIndex :: "local_storage \<Rightarrow> js_value" where
  "getDiagnosisCacheIndex s =
     (case items s DIAGNOSIS_CACHE_INDEX_KEY of
        None \<Rightarrow> JArr []
      | Some index \<Rightarrow>
          if truthy index then (case JSON_parse index of Inl error \<Rightarrow> JArr [] | Inr v \<Rightarrow> v)
          else JArr [])"

text \<open>A rejected index write is caught and logged inside \<open>updateDiagnosisCacheIndex\<close>.\<close>

definition updateDiagnosisCacheIndex :: "cache_params \<Rightarrow> js_value \<Rightarrow> local_storage \<Rightarrow> local_storage" where
  "updateDiagnosisCacheIndex P keys s =
     snd (setItem DIAGNOSIS_CACHE_INDEX_KEY (JSON_stringify P keys) s)"

text \<open>\<open>index.includes(key)\<close> exists on an array and on a string, \<open>index.push(key)\<close> on an array
  only; on any other value the call is a \<open>TypeError\<close>.\<close>

definition addToDiagnosisCacheIndex ::
  "cache_params \<Rightarrow> string \<Rightarrow> local_storage \<Rightarrow> unit result \<times> local_storage" where
  "addToDiagnosisCacheIndex P key s =
     (case getDiagnosisCacheIndex s of
        JArr index \<Rightarrow>
          if JStr key \<notin> set index
          then (Inr (), updateDiagnosisCacheIndex P (JArr (index @ [JStr key])) s)
          else (Inr (), s)
      | JStr index \<Rightarrow> if \<not> string_includes index key then (Inl TypeError, s) else (Inr (), s)
      | _ \<Rightarrow> (Inl TypeError, s))"

text \<open>\<open>index.filter\<close> exists on an array only. The key is the value the caller passes: the
  loops of the cache pass the elements of the index as they are.\<close>

definition removeFromDiagnosisCacheIndex ::
  "cache_params \<Rightarrow> js_value \<Rightarrow> local_storage \<Rightarrow> unit result \<times> local_storage" where
  "removeFromDiagnosisCacheIndex P key s =
     (case getDiagnosisCacheIndex s of
        JArr index \<Rightarrow>
          (let updatedIndex = filter (\<lambda>k. \<not> strict_equal k key) index
           in (Inr (), updateDiagnosisCacheIndex P (JArr updatedIndex) s))
      | _ \<Rightarrow> (Inl TypeError, s))"

subsection \<open>Size, eviction, delete\<close>

definition item_bytes :: "cache_params \<Rightarrow> local_storage \<Rightarrow> js_value \<Rightarrow> nat" where
  "item_bytes P s key =
     (case items s (DIAGNOSIS_CACHE_PREFIX @ to_string P key) of
        None \<Rightarrow> 0
      | Some data \<Rightarrow> if truthy data then blob_size data else 0)"

text \<open>\<open>getDiagnosisCacheSize\<close> before its division by \<open>1024 * 1024\<close>: the \<open>totalSize\<close> of
  the loop over the index.\<close>

definition getDiagnosisCacheSize_bytes :: "cache_params \<Rightarrow> local_storage \<Rightarrow> nat result" where
  "getDiagnosisCacheSize_bytes P s =
     (case for_of (getDiagnosisCacheIndex s) of
        Inl error \<Rightarrow> Inl error
      | Inr index \<Rightarrow> Inr (sum_list (map (item_bytes P s) index)))"

definition isDiagnosisCacheFull :: "cache_params \<Rightarrow> local_storage \<Rightarrow> bool result" where
  "isDiagnosisCacheFull P s =
     (case getDiagnosisCacheSize_bytes P s of
        Inl error \<Rightarrow> Inl error
      | Inr totalSize \<Rightarrow> Inr (totalSize \<ge> max_cache_bytes P))"

text \<open>\<open>deleteCachedDiagnosis\<close> catches the \<open>TypeError\<close> of the index update and returns
  \<open>false\<close>; the record is removed by then.\<close>

definition deleteCachedDiagnosis :: "cache_params \<Rightarrow> js_value \<Rightarrow> local_storage \<Rightarrow> bool \<times> local_storage" where
  "deleteCachedDiagnosis P cacheKey s =
     (case removeFromDiagnosisCacheIndex P cacheKey
             (removeItem (DIAGNOSIS_CACHE_PREFIX @ to_string P cacheKey) s) of
        (Inl error, s') \<Rightarrow> (False, s')
      | (Inr u, s') \<Rightarrow> (True, s'))"

text \<open>The scan of \<open>evictOldestDiagnosis\<close>: \<open>oldestKey\<close> starts at \<open>null\<close> and \<open>oldestTime\<close> at
  \<open>Infinity\<close>; the \<open>catch\<close> inside the loop skips a record that does not parse, and one that
  parses to \<open>null\<close>.\<close>

fun oldest_scan ::
  "cache_params \<Rightarrow> local_storage \<Rightarrow> js_value list \<Rightarrow> js_value \<times> js_value \<Rightarrow> js_value \<times> js_value" where
  "oldest_scan P s [] acc = acc"
| "oldest_scan P s (key # keys) (oldestKey, oldestTime) =
     (case items s (DIAGNOSIS_CACHE_PREFIX @ to_string P key) of
        None \<Rightarrow> oldest_scan P s keys (oldestKey, oldestTime)
      | Some data \<Rightarrow>
          if truthy data then
            (case JSON_parse data of
               Inl error \<Rightarrow> oldest_scan P s keys (oldestKey, oldestTime)
             | Inr cached \<Rightarrow>
                 (case get_prop cached ''timestamp'' of
                    Inl error \<Rightarrow> oldest_scan P s keys (oldestKey, oldestTime)
                  | Inr t \<Rightarrow>
                      if js_lt P t oldestTime
                      then oldest_scan P s keys (key, t)
                      else oldest_scan P s keys (oldestKey, oldestTime)))
          else oldest_scan P s keys (oldestKey, oldestTime))"

text \<open>\<open>if (oldestKey)\<close> is false for \<open>null\<close> and for the empty string.\<close>

definition evictOldestDiagnosis :: "cache_params \<Rightarrow> local_storage \<Rightarrow> unit result \<times> local_storage" where
  "evictOldestDiagnosis P s =
     (case for_of (getDiagnosisCacheIndex s) of
        Inl error \<Rightarrow> (Inl error, s)
      | Inr index \<Rightarrow>
          (let oldestKey = fst (oldest_scan P s index (JNull, JNum PosInfinity))
           in if to_boolean oldestKey then (Inr (), snd (deleteCachedDiagnosis P oldestKey s))
              else (Inr (), s)))"

text \<open>\<open>while (isDiagnosisCacheFull()) evictOldestDiagnosis()\<close>; \<open>None\<close>: the loop never ends.\<close>

partial_function (option) evict_while_full ::
  "cache_params \<Rightarrow> local_storage \<Rightarrow> (unit result \<times> local_storage) option" where
  "evict_while_full P s =
     (case isDiagnosisCacheFull P s of
        Inl error \<Rightarrow> Some (Inl error, s)
      | Inr full \<Rightarrow>
          if full then
            (case evictOldestDiagnosis P s of
               (Inl error, s') \<Rightarrow> Some (Inl error, s')
             | (Inr u, s') \<Rightarrow> evict_while_full P s')
          else Some (Inr (), s))"

subsection \<open>Sweep, store, lookup\<close>

fun sweep_loop ::
  "cache_params \<Rightarrow> int \<Rightarrow> js_value list \<Rightarrow> local_storage \<times> nat \<Rightarrow> local_storage \<times> nat" where
  "sweep_loop P now [] (s, clearedCount) = (s, clearedCount)"
| "sweep_loop P now (key # keys) (s, clearedCount) =
     (case items s (DIAGNOSIS_CACHE_PREFIX @ to_string P key) of
        None \<Rightarrow> sweep_loop P now keys (s, clearedCount)
      | Some data \<Rightarrow>
          if truthy data then
            (case JSON_parse data of
               Inl error \<Rightarrow> sweep_loop P now keys (s, clearedCount)
             | Inr cached \<Rightarrow>
                 (case get_prop cached ''expiresAt'' of
                    Inl error \<Rightarrow> sweep_loop P now keys (s, clearedCount)
                  | Inr e \<Rightarrow>
                      if js_gt P (Date_now now) e
                      then sweep_loop P now keys (snd (deleteCachedDiagnosis P key s), clearedCount + 1)
                      else sweep_loop P now keys (s, clearedCount)))
          else sweep_loop P now keys (s, clearedCount))"

text \<open>\<open>clearExpiredDiagnoses\<close> has no \<open>try\<close> around its loop header: an index that is not
  iterable makes it throw.\<close>

definition clearExpiredDiagnoses :: "cache_params \<Rightarrow> int \<Rightarrow> local_storage \<Rightarrow> nat result \<times> local_storage" where
  "clearExpiredDiagnoses P now s =
     (case for_of (getDiagnosisCacheIndex s) of
        Inl error \<Rightarrow> (Inl error, s)
      | Inr index \<Rightarrow>
          (case sweep_loop P now index (s, 0) of (s', clearedCount) \<Rightarrow> (Inr clearedCount, s')))"

text \<open>The object literal \<open>cachedDiagnosis\<close> of \<open>cacheDiagnosis\<close>.\<close>

definition new_entry :: "cache_params \<Rightarrow> string \<Rightarrow> string \<Rightarrow> OrganDiagnosis \<Rightarrow> int \<Rightarrow> js_value" where
  "new_entry P organName' imageHash' diagnosis' now =
     JObj [(''organName'', JStr organName'),
           (''imageHash'', JStr imageHash'),
           (''diagnosis'', diagnosis_value diagnosis'),
           (''timestamp'', JNum (Finite (of_int now))),
           (''expiresAt'', JNum (Finite (of_int (now + expiry_ms P))))]"

text \<open>The two statements that end both the \<open>try\<close> of \<open>cacheDiagnosis\<close> and its retry: the write
  of the entry and the registration of its key.\<close>

definition write_entry ::
  "cache_params \<Rightarrow> string \<Rightarrow> js_value \<Rightarrow> local_storage \<Rightarrow> unit result \<times> local_storage" where
  "write_entry P cacheKey cachedDiagnosis s =
     (case setItem (DIAGNOSIS_CACHE_PREFIX @ cacheKey) (JSON_stringify P cachedDiagnosis) s of
        (Some error, s') \<Rightarrow> (Inl error, s')
      | (None, s') \<Rightarrow> addToDiagnosisCacheIndex P cacheKey s')"

text \<open>The body of the \<open>try\<close> of \<open>cacheDiagnosis\<close>; \<open>None\<close> when the eviction loop never ends.\<close>

definition cacheDiagnosis_try ::
  "cache_params \<Rightarrow> string \<Rightarrow> js_value \<Rightarrow> local_storage \<Rightarrow> (unit result \<times> local_storage) option" where
  "cacheDiagnosis_try P cacheKey cachedDiagnosis s =
     (case evict_while_full P s of
        None \<Rightarrow> None
      | Some (Inl error, s') \<Rightarrow> Some (Inl error, s')
      | Some (Inr u, s') \<Rightarrow> Some (write_entry P cacheKey cachedDiagnosis s'))"

text \<open>\<open>cacheDiagnosis\<close>. The \<open>catch\<close> returns \<open>false\<close> for every error but a
  \<open>QuotaExceededError\<close>; for that one it sweeps, outside any \<open>try\<close>, and repeats the two
  statements inside a \<open>try\<close> of their own.\<close>

definition cacheDiagnosis ::
  "cache_params \<Rightarrow> string \<Rightarrow> string \<Rightarrow> OrganDiagnosis \<Rightarrow> int \<Rightarrow> local_storage \<Rightarrow>
   (bool result \<times> local_storage) option" where
  "cacheDiagnosis P organName' imageData diagnosis' now s =
     (let imageHash' = generateImageHash imageData;
          cacheKey = imageHash';
          cachedDiagnosis = new_entry P organName' imageHash' diagnosis' now
      in case cacheDiagnosis_try P cacheKey cachedDiagnosis s of
           None \<Rightarrow> None
         | Some (Inr u, s1) \<Rightarrow> Some (Inr True, s1)
         | Some (Inl error, s1) \<Rightarrow>
             if error = QuotaExceededError then
               (case clearExpiredDiagnoses P now s1 of
                  (Inl sweepError, s2) \<Rightarrow> Some (Inl sweepError, s2)
                | (Inr clearedCount, s2) \<Rightarrow>
                    (case write_entry P cacheKey cachedDiagnosis s2 of
                       (Inl retryError, s3) \<Rightarrow> Some (Inr False, s3)
                     | (Inr u, s3) \<Rightarrow> Some (Inr True, s3)))
             else Some (Inr False, s1))"

text \<open>\<open>getCachedDiagnosis\<close> returns \<open>cached.diagnosis\<close> as it was stored, which is \<open>undefined\<close>
  for a record without that property.\<close>

definition getCachedDiagnosis ::
  "cache_params \<Rightarrow> string \<Rightarrow> int \<Rightarrow> local_storage \<Rightarrow> js_value \<times> local_storage" where
  "getCachedDiagnosis P imageData now s =
     (let imageHash' = generateImageHash imageData;
          cacheKey = imageHash'
      in case items s (DIAGNOSIS_CACHE_PREFIX @ cacheKey) of
           None \<Rightarrow> (JNull, s)
         | Some data \<Rightarrow>
             if \<not> truthy data then (JNull, s)
             else (case JSON_parse data of
                     Inl error \<Rightarrow> (JNull, s)
                   | Inr cached \<Rightarrow>
                       (case get_prop cached ''expiresAt'' of
                          Inl error \<Rightarrow> (JNull, s)
                        | Inr e \<Rightarrow>
                            if js_gt P (Date_now now) e
                            then (JNull, snd (deleteCachedDiagnosis P (JStr cacheKey) s))
                            else (case get_prop cached ''diagnosis'' of
                                    Inl error \<Rightarrow> (JNull, s)
                                  | Inr d \<Rightarrow> (d, s)))))"

subsection \<open>Listing and clearing\<close>

text \<open>The loop of \<open>getAllCachedDiagnoses\<close>: an element \<open>{ ...cached, cacheKey: key }\<close> is the
  pair of the key and the record. A record for which \<open>Date.now() <= cached.expiresAt\<close> is
  false is deleted, which includes every record whose \<open>expiresAt\<close> is not a number.\<close>

fun getAll_loop ::
  "cache_params \<Rightarrow> int \<Rightarrow> js_value list \<Rightarrow> local_storage \<times> (js_value \<times> js_value) list \<Rightarrow>
   local_storage \<times> (js_value \<times> js_value) list" where
  "getAll_loop P now [] (s, diagnoses) = (s, diagnoses)"
| "getAll_loop P now (key # keys) (s, diagnoses) =
     (case items s (DIAGNOSIS_CACHE_PREFIX @ to_string P key) of
        None \<Rightarrow> getAll_loop P now keys (s, diagnoses)
      | Some data \<Rightarrow>
          if truthy data then
            (case JSON_parse data of
               Inl error \<Rightarrow> getAll_loop P now keys (s, diagnoses)
             | Inr cached \<Rightarrow>
                 (case get_prop cached ''expiresAt'' of
                    Inl error \<Rightarrow> getAll_loop P now keys (s, diagnoses)
                  | Inr e \<Rightarrow>
                      if js_le P (Date_now now) e
                      then getAll_loop P now keys (s, diagnoses @ [(key, cached)])
                      else getAll_loop P now keys (snd (deleteCachedDiagnosis P key s), diagnoses)))
          else getAll_loop P now keys (s, diagnoses))"

text \<open>\<open>getAllCachedDiagnoses\<close> up to its last line: the array \<open>diagnoses\<close> in the order of the
  loop. The \<open>sort\<close> that follows permutes it and touches nothing else.\<close>

definition getAllCachedDiagnoses ::
  "cache_params \<Rightarrow> int \<Rightarrow> local_storage \<Rightarrow> (js_value \<times> js_value) list result \<times> local_storage" where
  "getAllCachedDiagnoses P now s =
     (case for_of (getDiagnosisCacheIndex s) of
        Inl error \<Rightarrow> (Inl error, s)
      | Inr index \<Rightarrow>
          (case getAll_loop P now index (s, []) of (s', diagnoses) \<Rightarrow> (Inr diagnoses, s')))"

text \<open>\<open>clearAllDiagnosisCache\<close>: every indexed record is removed, then the index record; an
  index that is not iterable throws inside the \<open>try\<close>, and the \<open>catch\<close> returns \<open>false\<close>.\<close>

definition clearAllDiagnosisCache :: "cache_params \<Rightarrow> local_storage \<Rightarrow> bool \<times> local_storage" where
  "clearAllDiagnosisCache P s =
     (case for_of (getDiagnosisCacheIndex s) of
        Inl error \<Rightarrow> (False, s)
      | Inr index \<Rightarrow>
          (let s1 = fold (\<lambda>key. removeItem (DIAGNOSIS_CACHE_PREFIX @ to_string P key)) index s
           in (True, removeItem DIAGNOSIS_CACHE_INDEX_KEY s1)))"


subsection \<open>Vocabulary of the properties\<close>

text \<open>The answer of the backing store to the next \<open>setItem\<close>.\<close>

definition next_write :: "local_storage \<Rightarrow> js_error option" where
  "next_write s = (case faults s of [] \<Rightarrow> None | r # fs \<Rightarrow> r)"

text \<open>The value the cache reads under a fingerprint: the record is present, not empty, and
  parses.\<close>

definition record_at :: "local_storage \<Rightarrow> string \<Rightarrow> js_value option" where
  "record_at s key =
     (case items s (DIAGNOSIS_CACHE_PREFIX @ key) of
        None \<Rightarrow> None
      | Some data \<Rightarrow>
          if truthy data then (case JSON_parse data of Inl error \<Rightarrow> None | Inr v \<Rightarrow> Some v)
          else None)"

text \<open>The size that a fingerprint adds to the total of \<open>getDiagnosisCacheSize\<close>.\<close>

definition entry_bytes :: "local_storage \<Rightarrow> string \<Rightarrow> nat" where
  "entry_bytes s key =
     (case items s (DIAGNOSIS_CACHE_PREFIX @ key) of
        None \<Rightarrow> 0
      | Some data \<Rightarrow> if truthy data then blob_size data else 0)"

text \<open>A value is an entry when it is an object whose \<open>timestamp\<close> and \<open>expiresAt\<close> are finite
  numbers.\<close>

definition as_entry :: "js_value \<Rightarrow> CachedDiagnosis option" where
  "as_entry v =
     (case v of
        JObj ps \<Rightarrow>
          (case map_of ps ''timestamp'' of
             Some (JNum (Finite t)) \<Rightarrow>
               (case map_of ps ''expiresAt'' of
                  Some (JNum (Finite e)) \<Rightarrow>
                    Some \<lparr>organName = (case map_of ps ''organName'' of None \<Rightarrow> JUndefined | Some x \<Rightarrow> x),
                          imageHash = (case map_of ps ''imageHash'' of None \<Rightarrow> JUndefined | Some x \<Rightarrow> x),
                          diagnosis = (case map_of ps ''diagnosis'' of None \<Rightarrow> JUndefined | Some x \<Rightarrow> x),
                          timestamp = t, expiresAt = e\<rparr>
                | _ \<Rightarrow> None)
           | _ \<Rightarrow> None)
      | _ \<Rightarrow> None)"

definition entry_at :: "local_storage \<Rightarrow> string \<Rightarrow> CachedDiagnosis option" where
  "entry_at s key = (case record_at s key of None \<Rightarrow> None | Some v \<Rightarrow> as_entry v)"

text \<open>An entry is live at a time when it is stored and has not expired.\<close>

definition live :: "int \<Rightarrow> local_storage \<Rightarrow> string \<Rightarrow> bool" where
  "live now s key =
     (case entry_at s key of None \<Rightarrow> False | Some cached \<Rightarrow> of_int now \<le> expiresAt cached)"

fun is_array :: "js_value \<Rightarrow> bool" where
  "is_array (JArr xs) = True"
| "is_array JUndefined = False"
| "is_array JNull = False"
| "is_array (JBool b) = False"
| "is_array (JNum n) = False"
| "is_array (JStr s) = False"
| "is_array (JObj ps) = False"

text \<open>The fingerprints that an array of strings lists; \<open>None\<close> for any other value.\<close>

fun string_list :: "js_value list \<Rightarrow> string list option" where
  "string_list [] = Some []"
| "string_list (x # xs) =
     (case x of
        JStr key \<Rightarrow> (case string_list xs of None \<Rightarrow> None | Some keys \<Rightarrow> Some (key # keys))
      | _ \<Rightarrow> None)"

definition string_keys :: "js_value \<Rightarrow> string list option" where
  "string_keys v = (case v of JArr xs \<Rightarrow> string_list xs | _ \<Rightarrow> None)"

definition indexed_keys :: "local_storage \<Rightarrow> string list" where
  "indexed_keys s = (case string_keys (getDiagnosisCacheIndex s) of None \<Rightarrow> [] | Some keys \<Rightarrow> keys)"

text \<open>The total of \<open>getDiagnosisCacheSize\<close> in bytes when the index is an array of strings.\<close>

definition indexed_bytes :: "local_storage \<Rightarrow> nat" where
  "indexed_bytes s = sum_list (map (entry_bytes s) (indexed_keys s))"

text \<open>
  A well-formed store: the index is an array of strings that lists each key once, it lists
  neither the empty key nor the key \<open>index\<close> (whose record would be the index record itself),
  and every indexed key holds an entry, or else nothing that is read or counted towards the
  size (no record, or the empty string).
\<close>

definition well_formed :: "local_storage \<Rightarrow> bool" where
  "well_formed s =
     (case string_keys (getDiagnosisCacheIndex s) of
        None \<Rightarrow> False
      | Some index \<Rightarrow>
          distinct index \<and> ''index'' \<notin> set index \<and> [] \<notin> set index \<and>
          (\<forall>key \<in> set index.
             entry_at s key \<noteq> None \<or> (record_at s key = None \<and> entry_bytes s key = 0)))"

text \<open>The index lists exactly the fingerprints that have a record in the store; the record
  under the key \<open>diagnosis_cache_index\<close> is the index itself.\<close>

definition index_matches_store :: "local_storage \<Rightarrow> bool" where
  "index_matches_store s =
     (string_keys (getDiagnosisCacheIndex s) \<noteq> None \<and>
      (\<forall>key. key \<in> set (indexed_keys s) \<longleftrightarrow>
         key \<noteq> ''index'' \<and> items s (DIAGNOSIS_CACHE_PREFIX @ key) \<noteq> None))"

text \<open>The index read as the specification reads it: exactly the fingerprints of the entries
  live at a time.\<close>

definition index_is_live_set :: "int \<Rightarrow> local_storage \<Rightarrow> bool" where
  "index_is_live_set now s = (\<forall>key. key \<in> set (indexed_keys s) \<longleftrightarrow> live now s key)"

text \<open>The bytes of the indexed entries that are live at a time.\<close>

definition live_bytes :: "int \<Rightarrow> local_storage \<Rightarrow> nat" where
  "live_bytes now s = sum_list (map (entry_bytes s) (filter (live now s) (indexed_keys s)))"

text \<open>Calls of the exported operations and what they give back: the value returned, or the
  exception thrown to the caller.\<close>

datatype cache_call =
    Store_call string string OrganDiagnosis
  | Lookup_call string
  | Delete_call string
  | Sweep_call
  | List_call
  | Clear_call

datatype call_result =
    Stored bool
  | Found js_value
  | Deleted bool
  | Swept nat
  | Listed "(js_value \<times> js_value) list"
  | Cleared bool
  | Thrown js_error

fun run_call ::
  "cache_params \<Rightarrow> int \<Rightarrow> cache_call \<Rightarrow> local_storage \<Rightarrow> (call_result \<times> local_storage) option" where
  "run_call P now (Store_call organName' imageData diagnosis') s =
     (case cacheDiagnosis P organName' imageData diagnosis' now s of
        None \<Rightarrow> None
      | Some (Inl error, s') \<Rightarrow> Some (Thrown error, s')
      | Some (Inr ok, s') \<Rightarrow> Some (Stored ok, s'))"
| "run_call P now (Lookup_call imageData) s =
     (case getCachedDiagnosis P imageData now s of (d, s') \<Rightarrow> Some (Found d, s'))"
| "run_call P now (Delete_call cacheKey) s =
     (case deleteCachedDiagnosis P (JStr cacheKey) s of (ok, s') \<Rightarrow> Some (Deleted ok, s'))"
| "run_call P now Sweep_call s =
     (case clearExpiredDiagnoses P now s of
        (Inl error, s') \<Rightarrow> Some (Thrown error, s')
      | (Inr clearedCount, s') \<Rightarrow> Some (Swept clearedCount, s'))"
| "run_call P now List_call s =
     (case getAllCachedDiagnoses P now s of
        (Inl error, s') \<Rightarrow> Some (Thrown error, s')
      | (Inr diagnoses, s') \<Rightarrow> Some (Listed diagnoses, s'))"
| "run_call P now Clear_call s =
     (case clearAllDiagnosisCache P s of (ok, s') \<Rightarrow> Some (Cleared ok, s'))"

fun call_key :: "cache_call \<Rightarrow> string option" where
  "call_key (Store_call organName' imageData diagnosis') = Some (generateImageHash imageData)"
| "call_key (Lookup_call imageData) = Some (generateImageHash imageData)"
| "call_key (Delete_call cacheKey) = Some cacheKey"
| "call_key Sweep_call = None"
| "call_key List_call = None"
| "call_key Clear_call = None"

fun is_store :: "cache_call \<Rightarrow> bool" where
  "is_store (Store_call organName' imageData diagnosis') = True"
| "is_store (Lookup_call imageData) = False"
| "is_store (Delete_call cacheKey) = False"
| "is_store Sweep_call = False"
| "is_store List_call = False"
| "is_store Clear_call = False"

text \<open>A run of calls, each at its own time, and the storage it leaves; \<open>None\<close> when a call
  never returns. A call that throws leaves the storage as it is at the throw, and the run
  goes on from there.\<close>

fun run_calls :: "cache_params \<Rightarrow> (int \<times> cache_call) list \<Rightarrow> local_storage \<Rightarrow> local_storage option" where
  "run_calls P [] s = Some s"
| "run_calls P ((now, call) # calls) s =
     (case run_call P now call s of None \<Rightarrow> None | Some (r, s') \<Rightarrow> run_calls P calls s')"

text \<open>What a call gives back when it is made after a run of calls.\<close>

definition result_after ::
  "cache_params \<Rightarrow> (int \<times> cache_call) list \<Rightarrow> int \<Rightarrow> cache_call \<Rightarrow> local_storage \<Rightarrow> call_result option" where
  "result_after P calls now call s =
     (case run_calls P calls s of
        None \<Rightarrow> None
      | Some s' \<Rightarrow> map_option fst (run_call P now call s'))"

text \<open>The concrete scenario of the specification: a budget of 100 bytes, entries of 40 bytes
  each, a time to live of 1000 ms.\<close>

definition scenario_params :: cache_params where
  "scenario_params =
     \<lparr>max_cache_bytes = 100, expiry_ms = 1000, json_length = (\<lambda>v. 40),
      number_to_string = (\<lambda>n. ''0''), string_to_number = (\<lambda>s. NaN)\<rparr>"

definition empty_storage :: local_storage where
  "empty_storage = \<lparr>items = Map.empty, faults = []\<rparr>"

definition sample_diagnosis :: OrganDiagnosis where
  "sample_diagnosis =
     \<lparr>organ = ''lung'', healthStatus = Healthy, disease = ''N/A'', confidenceLevel = Finite 0.9,
      statusRating = Finite 5, detailedFindings = ''clear'', treatmentSuggestion = ''none''\<rparr>"

text \<open>A store that holds the entry of the image \<open>a\<close> written at time 0, which has expired from
  time 1001 on, over a backing storage that answers the next writes by the given script.\<close>

definition one_expired_entry :: "js_error option list \<Rightarrow> local_storage" where
  "one_expired_entry script =
     \<lparr>items =
        [DIAGNOSIS_CACHE_PREFIX @ ''1s00g'' \<mapsto>
           JSON_stringify scenario_params (new_entry scenario_params ''lung'' ''1s00g'' sample_diagnosis 0),
         DIAGNOSIS_CACHE_INDEX_KEY \<mapsto> JSON_stringify scenario_params (JArr [JStr ''1s00g''])],
      faults = script\<rparr>"

text \<open>A store whose only record, indexed under the fingerprint of the image \<open>a\<close>, is a
  string of seven bytes that is not JSON.\<close>

definition one_corrupt_record :: local_storage where
  "one_corrupt_record =
     \<lparr>items =
        [DIAGNOSIS_CACHE_PREFIX @ ''1s00g'' \<mapsto> Not_json 7,
         DIAGNOSIS_CACHE_INDEX_KEY \<mapsto> JSON_stringify scenario_params (JArr [JStr ''1s00g''])],
      faults = []\<rparr>"

text \<open>A store whose index record is the four bytes \<open>null\<close>, and nothing else.\<close>

definition null_index_storage :: local_storage where
  "null_index_storage = \<lparr>items = [DIAGNOSIS_CACHE_INDEX_KEY \<mapsto> Json_text JNull 4], faults = []\<rparr>"


section \<open>Storage, index and records: basic facts\<close>


lemma entry_key_eq_index_key:
  "(DIAGNOSIS_CACHE_PREFIX @ k = DIAGNOSIS_CACHE_INDEX_KEY) = (k = ''index'')"
  by (simp add: DIAGNOSIS_CACHE_PREFIX_def DIAGNOSIS_CACHE_INDEX_KEY_def)

lemma index_key_eq_entry_key:
  "(DIAGNOSIS_CACHE_INDEX_KEY = DIAGNOSIS_CACHE_PREFIX @ k) = (k = ''index'')"
  using entry_key_eq_index_key [of k] by auto

lemma setItem_eq:
  "setItem k v s =
     (next_write s,
      (if next_write s = None then s\<lparr>items := (items s)(k \<mapsto> v)\<rparr> else s)\<lparr>faults := tl (faults s)\<rparr>)"
  by (simp add: setItem_def next_write_def split: list.splits option.splits)

lemma fst_setItem [simp]: "fst (setItem k v s) = next_write s"
  by (simp add: setItem_eq)

lemma items_setItem:
  "items (snd (setItem k v s)) = (if next_write s = None then (items s)(k \<mapsto> v) else items s)"
  by (simp add: setItem_eq)

lemma faults_setItem [simp]: "faults (snd (setItem k v s)) = tl (faults s)"
  by (simp add: setItem_eq)

lemma next_write_no_faults [simp]: "faults s = [] \<Longrightarrow> next_write s = None"
  by (simp add: next_write_def)

lemma items_removeItem [simp]: "items (removeItem k s) = (items s)(k := None)"
  by (simp add: removeItem_def)

lemma faults_removeItem [simp]: "faults (removeItem k s) = faults s"
  by (simp add: removeItem_def)

lemma next_write_removeItem [simp]: "next_write (removeItem k s) = next_write s"
  by (simp add: next_write_def)

subsection \<open>Arrays of strings\<close>

lemma string_list_map [simp]: "string_list (map JStr keys) = Some keys"
  by (induction keys) simp_all

lemma string_list_Some: "string_list xs = Some keys \<Longrightarrow> xs = map JStr keys"
  by (induction xs arbitrary: keys) (auto split: js_value.splits option.splits)

lemma string_keys_Some: "string_keys v = Some keys \<longleftrightarrow> v = JArr (map JStr keys)"
  by (auto simp: string_keys_def dest: string_list_Some split: js_value.splits)

lemma string_keys_strings [simp]: "string_keys (JArr (map JStr keys)) = Some keys"
  by (simp add: string_keys_def)

lemma to_json_strings [simp]: "to_json (JArr (map JStr keys)) = JArr (map JStr keys)"
  by (induction keys) simp_all

lemma inj_JStr [simp]: "inj JStr"
  by (simp add: inj_on_def)

lemma filter_strict_equal_strings:
  "filter (\<lambda>x. \<not> strict_equal x (JStr k)) (map JStr keys) = map JStr (filter (\<lambda>x. x \<noteq> k) keys)"
  by (induction keys) auto

lemma JStr_mem_map [simp]: "JStr k \<in> JStr ` A \<longleftrightarrow> k \<in> A"
  by auto

subsection \<open>The index record\<close>

lemma getDiagnosisCacheIndex_cong:
  "items s DIAGNOSIS_CACHE_INDEX_KEY = items s' DIAGNOSIS_CACHE_INDEX_KEY \<Longrightarrow>
   getDiagnosisCacheIndex s = getDiagnosisCacheIndex s'"
  by (simp add: getDiagnosisCacheIndex_def)

lemma getDiagnosisCacheIndex_stringify:
  "items s DIAGNOSIS_CACHE_INDEX_KEY = Some (JSON_stringify P v) \<Longrightarrow> getDiagnosisCacheIndex s = to_json v"
  by (simp add: getDiagnosisCacheIndex_def JSON_stringify_def)

lemma getDiagnosisCacheIndex_absent:
  "items s DIAGNOSIS_CACHE_INDEX_KEY = None \<Longrightarrow> getDiagnosisCacheIndex s = JArr []"
  by (simp add: getDiagnosisCacheIndex_def)

lemma items_updateDiagnosisCacheIndex:
  "k \<noteq> DIAGNOSIS_CACHE_INDEX_KEY \<Longrightarrow> items (updateDiagnosisCacheIndex P v s) k = items s k"
  by (simp add: updateDiagnosisCacheIndex_def items_setItem)

lemma items_updateDiagnosisCacheIndex_entry:
  "k \<noteq> ''index'' \<Longrightarrow>
   items (updateDiagnosisCacheIndex P v s) (DIAGNOSIS_CACHE_PREFIX @ k) = items s (DIAGNOSIS_CACHE_PREFIX @ k)"
  by (simp add: items_updateDiagnosisCacheIndex entry_key_eq_index_key)

lemma faults_updateDiagnosisCacheIndex [simp]:
  "faults (updateDiagnosisCacheIndex P v s) = tl (faults s)"
  by (simp add: updateDiagnosisCacheIndex_def)

lemma getDiagnosisCacheIndex_update:
  "getDiagnosisCacheIndex (updateDiagnosisCacheIndex P v s) =
     (if next_write s = None then to_json v else getDiagnosisCacheIndex s)"
proof (cases "next_write s = None")
  case True
  then have "getDiagnosisCacheIndex (updateDiagnosisCacheIndex P v s) = to_json v"
    by (intro getDiagnosisCacheIndex_stringify [of _ P]) (simp add: updateDiagnosisCacheIndex_def items_setItem)
  with True show ?thesis by simp
next
  case False
  then have "getDiagnosisCacheIndex (updateDiagnosisCacheIndex P v s) = getDiagnosisCacheIndex s"
    by (intro getDiagnosisCacheIndex_cong) (auto simp: updateDiagnosisCacheIndex_def items_setItem)
  with False show ?thesis by auto
qed

lemma getDiagnosisCacheIndex_removeItem:
  "k \<noteq> ''index'' \<Longrightarrow>
   getDiagnosisCacheIndex (removeItem (DIAGNOSIS_CACHE_PREFIX @ k) s) = getDiagnosisCacheIndex s"
  by (rule getDiagnosisCacheIndex_cong) (simp add: index_key_eq_entry_key)

lemma getDiagnosisCacheIndex_removeItem_index:
  "getDiagnosisCacheIndex (removeItem DIAGNOSIS_CACHE_INDEX_KEY s) = JArr []"
  by (simp add: getDiagnosisCacheIndex_def)

lemma indexed_keys_strings:
  "getDiagnosisCacheIndex s = JArr (map JStr keys) \<Longrightarrow> indexed_keys s = keys"
  by (simp add: indexed_keys_def string_keys_def)

subsection \<open>Records\<close>

lemma record_at_cong:
  "items s (DIAGNOSIS_CACHE_PREFIX @ k) = items s' (DIAGNOSIS_CACHE_PREFIX @ k) \<Longrightarrow>
   record_at s k = record_at s' k"
  by (simp add: record_at_def)

lemma entry_at_cong:
  "items s (DIAGNOSIS_CACHE_PREFIX @ k) = items s' (DIAGNOSIS_CACHE_PREFIX @ k) \<Longrightarrow>
   entry_at s k = entry_at s' k"
  by (simp add: entry_at_def record_at_def)

lemma entry_bytes_cong:
  "items s (DIAGNOSIS_CACHE_PREFIX @ k) = items s' (DIAGNOSIS_CACHE_PREFIX @ k) \<Longrightarrow>
   entry_bytes s k = entry_bytes s' k"
  by (simp add: entry_bytes_def)

lemma item_bytes_entry_bytes: "item_bytes P s key = entry_bytes s (to_string P key)"
  by (simp add: item_bytes_def entry_bytes_def)

lemma entry_at_record_at: "entry_at s k = Some c \<Longrightarrow> \<exists>v. record_at s k = Some v \<and> as_entry v = Some c"
  by (auto simp: entry_at_def split: option.splits)

lemma as_entry_props:
  assumes "as_entry v = Some c"
  shows "get_prop v ''timestamp'' = Inr (JNum (Finite (timestamp c)))"
    and "get_prop v ''expiresAt'' = Inr (JNum (Finite (expiresAt c)))"
    and "get_prop v ''diagnosis'' = Inr (diagnosis c)"
  using assms
  by (auto simp: as_entry_def split: js_value.splits option.splits js_num.splits)

subsection \<open>Comparisons of numbers\<close>

lemma js_gt_now [simp]: "js_gt P (Date_now now) (JNum (Finite e)) = (e < of_int now)"
  by (simp add: js_gt_def js_less_def Date_now_def)

lemma js_le_now [simp]: "js_le P (Date_now now) (JNum (Finite e)) = (of_int now \<le> e)"
  by (auto simp: js_le_def js_less_def Date_now_def)

lemma js_lt_Infinity [simp]: "js_lt P (JNum (Finite t)) (JNum PosInfinity) = True"
  by (simp add: js_lt_def js_less_def)

lemma js_lt_Finite [simp]: "js_lt P (JNum (Finite t)) (JNum (Finite u)) = (t < u)"
  by (simp add: js_lt_def js_less_def)

section \<open>Deleting a record\<close>


lemma fst_deleteCachedDiagnosis:
  "fst (deleteCachedDiagnosis P key s) =
     is_array (getDiagnosisCacheIndex (removeItem (DIAGNOSIS_CACHE_PREFIX @ to_string P key) s))"
  by (simp add: deleteCachedDiagnosis_def removeFromDiagnosisCacheIndex_def Let_def
      split: js_value.splits)

lemma items_deleteCachedDiagnosis_any:
  "k \<noteq> DIAGNOSIS_CACHE_INDEX_KEY \<Longrightarrow>
   items (snd (deleteCachedDiagnosis P key s)) k =
     (if k = DIAGNOSIS_CACHE_PREFIX @ to_string P key then None else items s k)"
  by (auto simp: deleteCachedDiagnosis_def removeFromDiagnosisCacheIndex_def Let_def
      items_updateDiagnosisCacheIndex split: js_value.splits)

lemma items_deleteCachedDiagnosis:
  "k' \<noteq> ''index'' \<Longrightarrow>
   items (snd (deleteCachedDiagnosis P key s)) (DIAGNOSIS_CACHE_PREFIX @ k') =
     (if k' = to_string P key then None else items s (DIAGNOSIS_CACHE_PREFIX @ k'))"
  by (simp add: items_deleteCachedDiagnosis_any entry_key_eq_index_key)

lemma deleteCachedDiagnosis_strings:
  assumes "getDiagnosisCacheIndex s = JArr (map JStr keys)" and "k \<noteq> ''index''"
  shows "fst (deleteCachedDiagnosis P (JStr k) s) = True"
    and "faults (snd (deleteCachedDiagnosis P (JStr k) s)) = tl (faults s)"
    and "getDiagnosisCacheIndex (snd (deleteCachedDiagnosis P (JStr k) s)) =
           (if next_write s = None then JArr (map JStr (filter (\<lambda>x. x \<noteq> k) keys))
            else JArr (map JStr keys))"
  using assms
  by (simp_all add: deleteCachedDiagnosis_def removeFromDiagnosisCacheIndex_def Let_def
      getDiagnosisCacheIndex_removeItem getDiagnosisCacheIndex_update filter_strict_equal_strings)

lemma indexed_keys_delete:
  assumes "getDiagnosisCacheIndex s = JArr (map JStr keys)" and "k \<noteq> ''index''"
  shows "indexed_keys (snd (deleteCachedDiagnosis P (JStr k) s)) =
           (if next_write s = None then filter (\<lambda>x. x \<noteq> k) keys else keys)"
  using deleteCachedDiagnosis_strings(3) [OF assms, of P]
  by (auto simp: indexed_keys_strings)

lemma record_at_delete:
  "k' \<noteq> ''index'' \<Longrightarrow>
   record_at (snd (deleteCachedDiagnosis P key s)) k' = (if k' = to_string P key then None else record_at s k')"
  by (simp add: record_at_def items_deleteCachedDiagnosis)

lemma entry_at_delete:
  "k' \<noteq> ''index'' \<Longrightarrow>
   entry_at (snd (deleteCachedDiagnosis P key s)) k' = (if k' = to_string P key then None else entry_at s k')"
  by (simp add: entry_at_def record_at_delete)

lemma entry_bytes_delete:
  "k' \<noteq> ''index'' \<Longrightarrow>
   entry_bytes (snd (deleteCachedDiagnosis P key s)) k' = (if k' = to_string P key then 0 else entry_bytes s k')"
  by (simp add: entry_bytes_def items_deleteCachedDiagnosis)

lemma getDiagnosisCacheSize_bytes_strings:
  "getDiagnosisCacheIndex s = JArr (map JStr keys) \<Longrightarrow>
   getDiagnosisCacheSize_bytes P s = Inr (sum_list (map (entry_bytes s) keys))"
  by (simp add: getDiagnosisCacheSize_bytes_def item_bytes_entry_bytes comp_def)

lemma isDiagnosisCacheFull_strings:
  "getDiagnosisCacheIndex s = JArr (map JStr keys) \<Longrightarrow>
   isDiagnosisCacheFull P s = Inr (max_cache_bytes P \<le> sum_list (map (entry_bytes s) keys))"
  by (simp add: isDiagnosisCacheFull_def getDiagnosisCacheSize_bytes_strings)

text \<open>The total of the indexed sizes, for a store whose index is an array of strings.\<close>

lemma size_delete_le:
  assumes idx: "getDiagnosisCacheIndex s = JArr (map JStr keys)"
    and "''index'' \<notin> set keys" and "k \<noteq> ''index''"
  shows "sum_list (map (entry_bytes (snd (deleteCachedDiagnosis P (JStr k) s)))
                    (indexed_keys (snd (deleteCachedDiagnosis P (JStr k) s))))
         \<le> sum_list (map (entry_bytes s) keys)"
proof -
  let ?s' = "snd (deleteCachedDiagnosis P (JStr k) s)"
  have le: "\<And>ks. set ks \<subseteq> set keys \<Longrightarrow>
      sum_list (map (entry_bytes ?s') ks) \<le> sum_list (map (entry_bytes s) ks)"
  proof (rule sum_list_mono)
    fix ks x assume "set ks \<subseteq> set keys" "x \<in> set ks"
    with assms(2) have "x \<noteq> ''index''" by auto
    then show "entry_bytes ?s' x \<le> entry_bytes s x"
      by (simp add: entry_bytes_delete)
  qed
  show ?thesis
  proof (cases "next_write s = None")
    case True
    then have "sum_list (map (entry_bytes ?s') (indexed_keys ?s')) =
        sum_list (map (entry_bytes ?s') (filter (\<lambda>x. x \<noteq> k) keys))"
      by (simp add: indexed_keys_delete [OF idx assms(3)])
    also have "\<dots> \<le> sum_list (map (entry_bytes s) (filter (\<lambda>x. x \<noteq> k) keys))"
      by (rule le) auto
    also have "\<dots> \<le> sum_list (map (entry_bytes s) keys)"
      by (rule sum_list_filter_le_nat)
    finally show ?thesis .
  next
    case False
    then have "sum_list (map (entry_bytes ?s') (indexed_keys ?s')) = sum_list (map (entry_bytes ?s') keys)"
      by (auto simp: indexed_keys_delete [OF idx assms(3)])
    also have "\<dots> \<le> sum_list (map (entry_bytes s) keys)"
      by (rule le) auto
    finally show ?thesis .
  qed
qed

lemma well_formed_index:
  "well_formed s \<Longrightarrow> getDiagnosisCacheIndex s = JArr (map JStr (indexed_keys s))"
  by (auto simp: well_formed_def indexed_keys_def string_keys_Some split: option.splits)

lemma well_formed_iff:
  "well_formed s \<longleftrightarrow>
     getDiagnosisCacheIndex s = JArr (map JStr (indexed_keys s)) \<and>
     distinct (indexed_keys s) \<and> ''index'' \<notin> set (indexed_keys s) \<and> [] \<notin> set (indexed_keys s) \<and>
     (\<forall>key \<in> set (indexed_keys s).
        entry_at s key \<noteq> None \<or> (record_at s key = None \<and> entry_bytes s key = 0))"
proof (cases "string_keys (getDiagnosisCacheIndex s)")
  case None
  then have "getDiagnosisCacheIndex s \<noteq> JArr (map JStr (indexed_keys s))"
    by (auto simp: string_keys_Some [symmetric])
  with None show ?thesis by (simp add: well_formed_def)
next
  case (Some keys)
  then have "getDiagnosisCacheIndex s = JArr (map JStr keys)" "indexed_keys s = keys"
    by (simp_all add: string_keys_Some indexed_keys_def)
  with Some show ?thesis by (simp add: well_formed_def)
qed

lemma well_formed_delete:
  assumes "well_formed s" and "k \<noteq> ''index''"
  shows "well_formed (snd (deleteCachedDiagnosis P (JStr k) s))"
proof -
  let ?s' = "snd (deleteCachedDiagnosis P (JStr k) s)"
  let ?keys = "indexed_keys s"
  from assms(1) have idx: "getDiagnosisCacheIndex s = JArr (map JStr ?keys)"
    by (rule well_formed_index)
  note idx' = deleteCachedDiagnosis_strings(3) [OF idx assms(2), of P]
  note keys' = indexed_keys_delete [OF idx assms(2), of P]
  have sub: "set (indexed_keys ?s') \<subseteq> set ?keys"
    by (auto simp: keys')
  have d: "distinct (indexed_keys ?s')"
    using assms(1) by (auto simp: well_formed_iff keys')
  have "entry_at ?s' key \<noteq> None \<or> (record_at ?s' key = None \<and> entry_bytes ?s' key = 0)"
    if "key \<in> set (indexed_keys ?s')" for key
  proof -
    from that sub have in_idx: "key \<in> set ?keys" by auto
    with assms(1) have ne: "key \<noteq> ''index''"
      and ok: "entry_at s key \<noteq> None \<or> (record_at s key = None \<and> entry_bytes s key = 0)"
      by (auto simp: well_formed_iff)
    show ?thesis
      using ok by (auto simp: entry_bytes_delete [OF ne] entry_at_delete [OF ne] record_at_delete [OF ne])
  qed
  moreover have "getDiagnosisCacheIndex ?s' = JArr (map JStr (indexed_keys ?s'))"
    using idx' keys' by auto
  ultimately show ?thesis
    using d sub assms(1) by (auto simp: well_formed_iff [of ?s'] well_formed_iff [of s])
qed

section \<open>The sweep, the listing and the scan for the oldest record\<close>


lemma sweep_loop_Cons:
  "sweep_loop P now (key # keys) (s, n) =
     (case record_at s (to_string P key) of
        None \<Rightarrow> sweep_loop P now keys (s, n)
      | Some cached \<Rightarrow>
          (case get_prop cached ''expiresAt'' of
             Inl error \<Rightarrow> sweep_loop P now keys (s, n)
           | Inr e \<Rightarrow>
               if js_gt P (Date_now now) e
               then sweep_loop P now keys (snd (deleteCachedDiagnosis P key s), n + 1)
               else sweep_loop P now keys (s, n)))"
  by (simp add: record_at_def split: option.splits sum.splits)

lemma oldest_scan_Cons:
  "oldest_scan P s (key # keys) (oldestKey, oldestTime) =
     (case record_at s (to_string P key) of
        None \<Rightarrow> oldest_scan P s keys (oldestKey, oldestTime)
      | Some cached \<Rightarrow>
          (case get_prop cached ''timestamp'' of
             Inl error \<Rightarrow> oldest_scan P s keys (oldestKey, oldestTime)
           | Inr t \<Rightarrow>
               if js_lt P t oldestTime then oldest_scan P s keys (key, t)
               else oldest_scan P s keys (oldestKey, oldestTime)))"
  by (simp add: record_at_def split: option.splits sum.splits)

lemma getAll_loop_Cons:
  "getAll_loop P now (key # keys) (s, ds) =
     (case record_at s (to_string P key) of
        None \<Rightarrow> getAll_loop P now keys (s, ds)
      | Some cached \<Rightarrow>
          (case get_prop cached ''expiresAt'' of
             Inl error \<Rightarrow> getAll_loop P now keys (s, ds)
           | Inr e \<Rightarrow>
               if js_le P (Date_now now) e
               then getAll_loop P now keys (s, ds @ [(key, cached)])
               else getAll_loop P now keys (snd (deleteCachedDiagnosis P key s), ds)))"
  by (simp add: record_at_def split: option.splits sum.splits)

declare sweep_loop.simps(2) [simp del] oldest_scan.simps(2) [simp del] getAll_loop.simps(2) [simp del]

lemma sweep_loop_Cons_entry:
  "entry_at s k = Some c \<Longrightarrow>
   sweep_loop P now (JStr k # keys) (s, n) =
     (if expiresAt c < of_int now
      then sweep_loop P now keys (snd (deleteCachedDiagnosis P (JStr k) s), n + 1)
      else sweep_loop P now keys (s, n))"
  by (auto simp: sweep_loop_Cons as_entry_props dest!: entry_at_record_at)

lemma sweep_loop_Cons_skip:
  "record_at s k = None \<Longrightarrow> sweep_loop P now (JStr k # keys) (s, n) = sweep_loop P now keys (s, n)"
  by (simp add: sweep_loop_Cons)

lemma oldest_scan_Cons_entry:
  "entry_at s k = Some c \<Longrightarrow>
   oldest_scan P s (JStr k # keys) (oldestKey, oldestTime) =
     (if js_lt P (JNum (Finite (timestamp c))) oldestTime
      then oldest_scan P s keys (JStr k, JNum (Finite (timestamp c)))
      else oldest_scan P s keys (oldestKey, oldestTime))"
  by (auto simp: oldest_scan_Cons as_entry_props dest!: entry_at_record_at)

lemma oldest_scan_Cons_skip:
  "record_at s k = None \<Longrightarrow> oldest_scan P s (JStr k # keys) acc = oldest_scan P s keys acc"
  by (cases acc) (simp add: oldest_scan_Cons)

lemma getAll_loop_Cons_entry:
  "entry_at s k = Some c \<Longrightarrow> record_at s k = Some v \<Longrightarrow>
   getAll_loop P now (JStr k # keys) (s, ds) =
     (if of_int now \<le> expiresAt c
      then getAll_loop P now keys (s, ds @ [(JStr k, v)])
      else getAll_loop P now keys (snd (deleteCachedDiagnosis P (JStr k) s), ds))"
  by (auto simp: getAll_loop_Cons as_entry_props entry_at_def)

lemma getAll_loop_Cons_skip:
  "record_at s k = None \<Longrightarrow> getAll_loop P now (JStr k # keys) (s, ds) = getAll_loop P now keys (s, ds)"
  by (simp add: getAll_loop_Cons)

text \<open>An invariant of the storage holds after a sweep when every delete of the sweep keeps
  it.\<close>

lemma sweep_loop_invariant:
  assumes "I s"
    and "\<And>s key cached e. I s \<Longrightarrow> key \<in> set keys \<Longrightarrow> record_at s (to_string P key) = Some cached \<Longrightarrow>
           get_prop cached ''expiresAt'' = Inr e \<Longrightarrow> js_gt P (Date_now now) e \<Longrightarrow>
           I (snd (deleteCachedDiagnosis P key s))"
  shows "I (fst (sweep_loop P now keys (s, n)))"
  using assms
proof (induction keys arbitrary: s n)
  case Nil
  then show ?case by simp
next
  case (Cons key keys)
  have rest: "\<And>s' n'. I s' \<Longrightarrow> I (fst (sweep_loop P now keys (s', n')))"
    using Cons.IH Cons.prems(2) by simp
  show ?case
  proof (cases "record_at s (to_string P key)")
    case None
    then show ?thesis using Cons.prems(1) rest by (simp add: sweep_loop_Cons)
  next
    case (Some cached)
    show ?thesis
    proof (cases "get_prop cached ''expiresAt''")
      case (Inl error)
      with Some Cons.prems(1) rest show ?thesis by (simp add: sweep_loop_Cons)
    next
      case (Inr e)
      show ?thesis
      proof (cases "js_gt P (Date_now now) e")
        case True
        with Some Inr Cons.prems have "I (snd (deleteCachedDiagnosis P key s))" by simp
        with Some Inr True rest show ?thesis by (simp add: sweep_loop_Cons)
      next
        case False
        with Some Inr Cons.prems(1) rest show ?thesis by (simp add: sweep_loop_Cons)
      qed
    qed
  qed
qed

lemma getAll_loop_invariant:
  assumes "I s"
    and "\<And>s key cached e. I s \<Longrightarrow> key \<in> set keys \<Longrightarrow> record_at s (to_string P key) = Some cached \<Longrightarrow>
           get_prop cached ''expiresAt'' = Inr e \<Longrightarrow> \<not> js_le P (Date_now now) e \<Longrightarrow>
           I (snd (deleteCachedDiagnosis P key s))"
  shows "I (fst (getAll_loop P now keys (s, ds)))"
  using assms
proof (induction keys arbitrary: s ds)
  case Nil
  then show ?case by simp
next
  case (Cons key keys)
  have rest: "\<And>s' ds'. I s' \<Longrightarrow> I (fst (getAll_loop P now keys (s', ds')))"
    using Cons.IH Cons.prems(2) by simp
  show ?case
  proof (cases "record_at s (to_string P key)")
    case None
    then show ?thesis using Cons.prems(1) rest by (simp add: getAll_loop_Cons)
  next
    case (Some cached)
    show ?thesis
    proof (cases "get_prop cached ''expiresAt''")
      case (Inl error)
      with Some Cons.prems(1) rest show ?thesis by (simp add: getAll_loop_Cons)
    next
      case (Inr e)
      show ?thesis
      proof (cases "js_le P (Date_now now) e")
        case False
        with Some Inr Cons.prems have "I (snd (deleteCachedDiagnosis P key s))" by simp
        with Some Inr False rest show ?thesis by (simp add: getAll_loop_Cons)
      next
        case True
        with Some Inr Cons.prems(1) rest show ?thesis by (simp add: getAll_loop_Cons)
      qed
    qed
  qed
qed

lemma clearExpiredDiagnoses_iterable:
  "for_of (getDiagnosisCacheIndex s) = Inr keys \<Longrightarrow>
   clearExpiredDiagnoses P now s =
     (Inr (snd (sweep_loop P now keys (s, 0))), fst (sweep_loop P now keys (s, 0)))"
  by (simp add: clearExpiredDiagnoses_def split: prod.splits)

lemma clearExpiredDiagnoses_throws:
  "for_of (getDiagnosisCacheIndex s) = Inl error \<Longrightarrow> clearExpiredDiagnoses P now s = (Inl error, s)"
  by (simp add: clearExpiredDiagnoses_def)

lemma getAllCachedDiagnoses_iterable:
  "for_of (getDiagnosisCacheIndex s) = Inr keys \<Longrightarrow>
   getAllCachedDiagnoses P now s =
     (Inr (snd (getAll_loop P now keys (s, []))), fst (getAll_loop P now keys (s, [])))"
  by (simp add: getAllCachedDiagnoses_def split: prod.splits)

text \<open>The scan over an index of strings whose readable records are entries.\<close>

lemma oldest_scan_spec:
  assumes "oldest_scan P s (map JStr ks) (ok, ot) = (ok', ot')"
    and "\<forall>k \<in> set ks. entry_at s k \<noteq> None \<or> record_at s k = None"
    and "(ok = JNull \<and> ot = JNum PosInfinity) \<or>
         (\<exists>k0 c0. ok = JStr k0 \<and> entry_at s k0 = Some c0 \<and> ot = JNum (Finite (timestamp c0)))"
  shows "(ok' = JNull \<and> ok = JNull \<and> (\<forall>k \<in> set ks. entry_at s k = None)) \<or>
         (\<exists>k1 c1. ok' = JStr k1 \<and> (k1 \<in> set ks \<or> ok = JStr k1) \<and>
            entry_at s k1 = Some c1 \<and> ot' = JNum (Finite (timestamp c1)) \<and>
            (\<forall>k \<in> set ks. \<forall>c. entry_at s k = Some c \<longrightarrow> timestamp c1 \<le> timestamp c) \<and>
            (\<forall>t. ot = JNum (Finite t) \<longrightarrow> timestamp c1 \<le> t))"
  using assms
proof (induction ks arbitrary: ok ot)
  case Nil
  then show ?case by auto
next
  case (Cons k ks)
  from Cons.prems(2) have rd: "\<forall>k \<in> set ks. entry_at s k \<noteq> None \<or> record_at s k = None" by simp
  show ?case
  proof (cases "entry_at s k")
    case None
    with Cons.prems(2) have "record_at s k = None" by simp
    with Cons.prems(1) have "oldest_scan P s (map JStr ks) (ok, ot) = (ok', ot')"
      by (simp add: oldest_scan_Cons_skip)
    from Cons.IH [OF this rd Cons.prems(3)] None show ?thesis
      by auto
  next
    case (Some cached)
    show ?thesis
    proof (cases "js_lt P (JNum (Finite (timestamp cached))) ot")
      case True
      with Some Cons.prems(1)
      have run: "oldest_scan P s (map JStr ks) (JStr k, JNum (Finite (timestamp cached))) = (ok', ot')"
        by (simp add: oldest_scan_Cons_entry)
      have acc: "(JStr k = JNull \<and> JNum (Finite (timestamp cached)) = JNum PosInfinity) \<or>
            (\<exists>k0 c0. JStr k = JStr k0 \<and> entry_at s k0 = Some c0 \<and>
               JNum (Finite (timestamp cached)) = JNum (Finite (timestamp c0)))"
        using Some by simp
      from Cons.IH [OF run rd acc]
      obtain k1 c1 where r: "ok' = JStr k1" "k1 \<in> set ks \<or> k = k1" "entry_at s k1 = Some c1"
        "ot' = JNum (Finite (timestamp c1))"
        "\<forall>k \<in> set ks. \<forall>c. entry_at s k = Some c \<longrightarrow> timestamp c1 \<le> timestamp c"
        "timestamp c1 \<le> timestamp cached"
        by auto
      have "\<forall>t. ot = JNum (Finite t) \<longrightarrow> timestamp c1 \<le> t"
        using True r(6) by auto
      moreover have "\<forall>k' \<in> set (k # ks). \<forall>c. entry_at s k' = Some c \<longrightarrow> timestamp c1 \<le> timestamp c"
        using r(5,6) Some by auto
      moreover have "k1 \<in> set (k # ks) \<or> ok = JStr k1"
        using r(2) by auto
      ultimately show ?thesis using r(1,3,4) by blast
    next
      case False
      with Some Cons.prems(1) have run: "oldest_scan P s (map JStr ks) (ok, ot) = (ok', ot')"
        by (simp add: oldest_scan_Cons_entry)
      from False Cons.prems(3) obtain k0 c0 where
        acc: "ok = JStr k0" "entry_at s k0 = Some c0" "ot = JNum (Finite (timestamp c0))"
        by auto
      from False acc(3) have le: "timestamp c0 \<le> timestamp cached" by simp
      from Cons.IH [OF run rd Cons.prems(3)] acc(1)
      obtain k1 c1 where r: "ok' = JStr k1" "k1 \<in> set ks \<or> ok = JStr k1" "entry_at s k1 = Some c1"
        "ot' = JNum (Finite (timestamp c1))"
        "\<forall>k \<in> set ks. \<forall>c. entry_at s k = Some c \<longrightarrow> timestamp c1 \<le> timestamp c"
        "\<forall>t. ot = JNum (Finite t) \<longrightarrow> timestamp c1 \<le> t"
        by auto
      from r(6) acc(3) le have "timestamp c1 \<le> timestamp cached" by simp
      with r(5) Some
      have "\<forall>k' \<in> set (k # ks). \<forall>c. entry_at s k' = Some c \<longrightarrow> timestamp c1 \<le> timestamp c"
        by auto
      moreover have "k1 \<in> set (k # ks) \<or> ok = JStr k1"
        using r(2) by auto
      ultimately show ?thesis using r(1,3,4,6) by blast
    qed
  qed
qed

lemma oldest_scan_start:
  assumes "oldest_scan P s (map JStr ks) (JNull, JNum PosInfinity) = (ok', ot')"
    and "\<forall>k \<in> set ks. entry_at s k \<noteq> None \<or> record_at s k = None"
  shows "(ok' = JNull \<and> (\<forall>k \<in> set ks. entry_at s k = None)) \<or>
         (\<exists>k1 c1. ok' = JStr k1 \<and> k1 \<in> set ks \<and> entry_at s k1 = Some c1 \<and>
            (\<forall>k \<in> set ks. \<forall>c. entry_at s k = Some c \<longrightarrow> timestamp c1 \<le> timestamp c))"
  using oldest_scan_spec [OF assms] by auto

section \<open>One eviction step\<close>


lemma sum_list_pos_member:
  fixes f :: "'a \<Rightarrow> nat"
  assumes "0 < sum_list (map f xs)"
  shows "\<exists>x \<in> set xs. f x \<noteq> 0"
proof (rule ccontr)
  assume "\<not> (\<exists>x \<in> set xs. f x \<noteq> 0)"
  then have "sum_list (map f xs) = 0" by (simp add: sum_list_eq_0_iff)
  with assms show False by simp
qed

lemma well_formed_readable:
  "well_formed s \<Longrightarrow> \<forall>k \<in> set (indexed_keys s). entry_at s k \<noteq> None \<or> record_at s k = None"
  by (auto simp: well_formed_iff)

lemma well_formed_size:
  "well_formed s \<Longrightarrow>
   getDiagnosisCacheSize_bytes P s = Inr (sum_list (map (entry_bytes s) (indexed_keys s)))"
  by (rule getDiagnosisCacheSize_bytes_strings) (rule well_formed_index)

lemma well_formed_full:
  "well_formed s \<Longrightarrow>
   isDiagnosisCacheFull P s = Inr (max_cache_bytes P \<le> sum_list (map (entry_bytes s) (indexed_keys s)))"
  by (rule isDiagnosisCacheFull_strings) (rule well_formed_index)

text \<open>One step of the eviction on a well-formed store that holds something: it deletes an
  indexed entry of least timestamp.\<close>

lemma evictOldestDiagnosis_progress:
  assumes wf: "well_formed s" and pos: "0 < sum_list (map (entry_bytes s) (indexed_keys s))"
  shows "\<exists>k c. k \<in> set (indexed_keys s) \<and> k \<noteq> [] \<and> k \<noteq> ''index'' \<and> entry_at s k = Some c \<and>
      (\<forall>k' \<in> set (indexed_keys s). \<forall>c'. entry_at s k' = Some c' \<longrightarrow> timestamp c \<le> timestamp c') \<and>
      evictOldestDiagnosis P s = (Inr (), snd (deleteCachedDiagnosis P (JStr k) s))"
proof -
  let ?keys = "indexed_keys s"
  note idx = well_formed_index [OF wf]
  from pos have "\<exists>k0 \<in> set ?keys. entry_bytes s k0 \<noteq> 0"
    by (rule sum_list_pos_member)
  then obtain k0 where k0: "k0 \<in> set ?keys" "entry_bytes s k0 \<noteq> 0"
    by auto
  with wf have e0: "entry_at s k0 \<noteq> None"
    by (auto simp: well_formed_iff)
  obtain ok ot where run: "oldest_scan P s (map JStr ?keys) (JNull, JNum PosInfinity) = (ok, ot)"
    by (cases "oldest_scan P s (map JStr ?keys) (JNull, JNum PosInfinity)")
  from oldest_scan_start [OF run well_formed_readable [OF wf]] k0(1) e0
  obtain k c where k: "ok = JStr k" "k \<in> set ?keys" "entry_at s k = Some c"
    "\<forall>k' \<in> set ?keys. \<forall>c'. entry_at s k' = Some c' \<longrightarrow> timestamp c \<le> timestamp c'"
    by auto
  from k(2) wf have ne: "k \<noteq> []" "k \<noteq> ''index''"
    by (auto simp: well_formed_iff)
  with k(1) run idx have "evictOldestDiagnosis P s = (Inr (), snd (deleteCachedDiagnosis P (JStr k) s))"
    by (simp add: evictOldestDiagnosis_def)
  with k ne show ?thesis by blast
qed

section \<open>The eviction loop\<close>

lemma evict_while_full_not_full:
  "isDiagnosisCacheFull P s = Inr False \<Longrightarrow> evict_while_full P s = Some (Inr (), s)"
  by (subst evict_while_full.simps) simp

lemma evict_while_full_full:
  "isDiagnosisCacheFull P s = Inr True \<Longrightarrow> evictOldestDiagnosis P s = (Inr (), s') \<Longrightarrow>
   evict_while_full P s = evict_while_full P s'"
  by (subst evict_while_full.simps) simp

lemma evict_while_full_throws:
  "isDiagnosisCacheFull P s = Inl error \<Longrightarrow> evict_while_full P s = Some (Inl error, s)"
  by (subst evict_while_full.simps) simp

text \<open>What holds when the loop ends: an invariant of the eviction steps, and, when the loop
  ends without an exception, the test that ended it.\<close>

lemma evict_while_full_rule:
  assumes run: "evict_while_full P s = Some (r, s1)"
    and init: "I s"
    and step: "\<And>s. I s \<Longrightarrow> isDiagnosisCacheFull P s = Inr True \<Longrightarrow> I (snd (evictOldestDiagnosis P s))"
  shows "I s1 \<and> (r = Inr () \<longrightarrow> isDiagnosisCacheFull P s1 = Inr False)"
proof -
  let ?Q = "\<lambda>y. I (snd y) \<and> (fst y = Inr () \<longrightarrow> isDiagnosisCacheFull P (snd y) = Inr False)"
  have "fst (P, s) = P \<longrightarrow> I (snd (P, s)) \<longrightarrow> ?Q (r, s1)"
  proof (rule evict_while_full.raw_induct
      [where Pa = "\<lambda>ps y. fst ps = P \<longrightarrow> I (snd ps) \<longrightarrow> ?Q y" and P = P and s = s and y = "(r, s1)"])
    show "evict_while_full P s = Some (r, s1)" by (rule run)
  next
    fix f Q sa y
    assume IH: "\<And>s b y. f s b = Some y \<Longrightarrow> fst (s, b) = P \<longrightarrow> I (snd (s, b)) \<longrightarrow> ?Q y"
      and eq: "(case isDiagnosisCacheFull Q sa of
                  Inl error \<Rightarrow> Some (Inl error, sa)
                | Inr full \<Rightarrow>
                    if full then
                      (case evictOldestDiagnosis Q sa of
                         (Inl error, s') \<Rightarrow> Some (Inl error, s')
                       | (Inr u, s') \<Rightarrow> f Q s')
                    else Some (Inr (), sa)) = Some y"
    show "fst (Q, sa) = P \<longrightarrow> I (snd (Q, sa)) \<longrightarrow> ?Q y"
    proof (intro impI)
      assume Q: "fst (Q, sa) = P" and Isa: "I (snd (Q, sa))"
      then have Q': "Q = P" and Isa': "I sa" by simp_all
      show "?Q y"
      proof (cases "isDiagnosisCacheFull P sa")
        case (Inl error)
        with eq Q' have "y = (Inl error, sa)" by simp
        with Isa' show ?thesis by simp
      next
        case (Inr full)
        show ?thesis
        proof (cases full)
          case False
          with Inr eq Q' have "y = (Inr (), sa)" by simp
          with Isa' Inr False show ?thesis by simp
        next
          case True
          obtain r' s' where ev: "evictOldestDiagnosis P sa = (r', s')"
            by (cases "evictOldestDiagnosis P sa")
          from step [OF Isa'] Inr True ev have Is': "I s'" by simp
          show ?thesis
          proof (cases r')
            case (Inl error)
            with eq Q' Inr True ev have "y = (Inl error, s')" by simp
            with Is' show ?thesis by simp
          next
            case (Inr u)
            with eq Q' \<open>isDiagnosisCacheFull P sa = Inr full\<close> True ev have "f P s' = Some y" by simp
            from IH [OF this] Is' show ?thesis by simp
          qed
        qed
      qed
    qed
  qed
  with init show ?thesis by simp
qed

lemma stored_count_delete:
  assumes wf: "well_formed s" and kin: "k \<in> set (indexed_keys s)"
    and e: "entry_at s k \<noteq> None"
  shows "length (filter (\<lambda>x. entry_at (snd (deleteCachedDiagnosis P (JStr k) s)) x \<noteq> None)
                  (indexed_keys (snd (deleteCachedDiagnosis P (JStr k) s))))
         < length (filter (\<lambda>x. entry_at s x \<noteq> None) (indexed_keys s))"
proof -
  let ?s' = "snd (deleteCachedDiagnosis P (JStr k) s)"
  let ?idx = "indexed_keys s"
  note idx = well_formed_index [OF wf]
  from wf have noidx: "''index'' \<notin> set ?idx" by (simp add: well_formed_iff)
  with kin have k: "k \<noteq> ''index''" by auto
  note keys' = indexed_keys_delete [OF idx k, of P]
  have Q: "(entry_at ?s' x \<noteq> None) = (x \<noteq> k \<and> entry_at s x \<noteq> None)"
    if "x \<in> set ?idx" for x
  proof -
    from that noidx have "x \<noteq> ''index''" by auto
    then show ?thesis by (simp add: entry_at_delete)
  qed
  have both: "filter (\<lambda>x. entry_at ?s' x \<noteq> None) ?idx
        = filter (\<lambda>x. x \<noteq> k) (filter (\<lambda>x. entry_at s x \<noteq> None) ?idx)"
  proof -
    have "filter (\<lambda>x. entry_at ?s' x \<noteq> None) ?idx
          = filter (\<lambda>x. x \<noteq> k \<and> entry_at s x \<noteq> None) ?idx"
      by (rule filter_cong [OF refl]) (rule Q)
    also have "\<dots> = filter (\<lambda>x. x \<noteq> k) (filter (\<lambda>x. entry_at s x \<noteq> None) ?idx)"
      by (simp add: conj_commute)
    finally show ?thesis .
  qed
  have "filter (\<lambda>x. entry_at ?s' x \<noteq> None) (indexed_keys ?s')
        = filter (\<lambda>x. x \<noteq> k) (filter (\<lambda>x. entry_at s x \<noteq> None) ?idx)"
  proof (cases "next_write s = None")
    case True
    then have "indexed_keys ?s' = filter (\<lambda>x. x \<noteq> k) ?idx"
      by (simp add: keys')
    then have "filter (\<lambda>x. entry_at ?s' x \<noteq> None) (indexed_keys ?s')
        = filter (\<lambda>x. x \<noteq> k) (filter (\<lambda>x. entry_at ?s' x \<noteq> None) ?idx)"
      by (simp add: conj_commute)
    also have "\<dots> = filter (\<lambda>x. x \<noteq> k) (filter (\<lambda>x. entry_at s x \<noteq> None) ?idx)"
      by (simp only: both) simp
    finally show ?thesis .
  next
    case False
    then have "indexed_keys ?s' = ?idx"
      by (auto simp: keys')
    then show ?thesis by (simp only: both)
  qed
  moreover have "length (filter (\<lambda>x. x \<noteq> k) (filter (\<lambda>x. entry_at s x \<noteq> None) ?idx))
        < length (filter (\<lambda>x. entry_at s x \<noteq> None) ?idx)"
    by (rule length_filter_less [of k]) (use kin e in auto)
  ultimately show ?thesis by simp
qed

text \<open>On a well-formed store with a positive budget the loop ends, without an exception, on
  a well-formed store whose total is below the budget.\<close>

lemma evict_while_full_terminates:
  assumes "well_formed s" and pos: "0 < max_cache_bytes P"
  shows "\<exists>s1. evict_while_full P s = Some (Inr (), s1) \<and> well_formed s1 \<and>
           sum_list (map (entry_bytes s1) (indexed_keys s1)) < max_cache_bytes P \<and>
           sum_list (map (entry_bytes s1) (indexed_keys s1)) \<le> sum_list (map (entry_bytes s) (indexed_keys s)) \<and>
           (faults s = [] \<longrightarrow> faults s1 = [])"
  using assms(1)
proof (induction "length (filter (\<lambda>x. entry_at s x \<noteq> None) (indexed_keys s))"
    arbitrary: s rule: less_induct)
  case less
  let ?total = "\<lambda>s. sum_list (map (entry_bytes s) (indexed_keys s))"
  note full = well_formed_full [OF less.prems, of P]
  show ?case
  proof (cases "max_cache_bytes P \<le> ?total s")
    case False
    with full have "evict_while_full P s = Some (Inr (), s)"
      by (intro evict_while_full_not_full) simp
    with False less.prems show ?thesis by simp
  next
    case True
    with pos have "0 < ?total s" by simp
    from evictOldestDiagnosis_progress [OF less.prems this, of P]
    obtain k c where k: "k \<in> set (indexed_keys s)" "k \<noteq> ''index''" "entry_at s k = Some c"
      and ev: "evictOldestDiagnosis P s = (Inr (), snd (deleteCachedDiagnosis P (JStr k) s))" by blast
    let ?s' = "snd (deleteCachedDiagnosis P (JStr k) s)"
    have wf': "well_formed ?s'" by (rule well_formed_delete [OF less.prems k(2)])
    have "length (filter (\<lambda>x. entry_at ?s' x \<noteq> None) (indexed_keys ?s'))
          < length (filter (\<lambda>x. entry_at s x \<noteq> None) (indexed_keys s))"
      by (rule stored_count_delete [OF less.prems k(1)]) (simp add: k(3))
    from less.hyps [OF this wf']
    obtain s1 where s1: "evict_while_full P ?s' = Some (Inr (), s1)" "well_formed s1"
      "?total s1 < max_cache_bytes P" "?total s1 \<le> ?total ?s'" "faults ?s' = [] \<longrightarrow> faults s1 = []"
      by blast
    have "?total ?s' \<le> ?total s"
      using less.prems k(2)
      by (intro size_delete_le [OF well_formed_index]) (simp_all add: well_formed_iff)
    moreover have "evict_while_full P s = Some (Inr (), s1)"
      using evict_while_full_full [OF _ ev] full True s1(1) by simp
    moreover have "faults s = [] \<longrightarrow> faults s1 = []"
      using s1(5) deleteCachedDiagnosis_strings(2) [OF well_formed_index [OF less.prems] k(2), of P]
      by simp
    ultimately show ?thesis using s1 by auto
  qed
qed

section \<open>Writing an entry\<close>


lemma toString_radix_nonempty: "2 \<le> r \<Longrightarrow> r \<le> 36 \<Longrightarrow> toString_radix r n \<noteq> []"
  by (subst toString_radix.simps) simp

lemma generateImageHash_nonempty: "generateImageHash imageData \<noteq> []"
  by (simp add: generateImageHash_def Let_def toString_radix_nonempty)

lemma well_formed_size': "well_formed s \<Longrightarrow> getDiagnosisCacheSize_bytes P s = Inr (indexed_bytes s)"
  by (simp add: well_formed_size indexed_bytes_def)

lemma indexed_keys_cong:
  "items s' DIAGNOSIS_CACHE_INDEX_KEY = items s DIAGNOSIS_CACHE_INDEX_KEY \<Longrightarrow> indexed_keys s' = indexed_keys s"
  by (simp add: indexed_keys_def getDiagnosisCacheIndex_cong [of s' s])

lemma indexed_bytes_cong:
  assumes "items s' = items s"
  shows "indexed_bytes s' = indexed_bytes s"
proof -
  have "indexed_keys s' = indexed_keys s"
    by (rule indexed_keys_cong) (simp add: assms)
  moreover have "entry_bytes s' = entry_bytes s"
    by (rule ext, rule entry_bytes_cong) (simp add: assms)
  ultimately show ?thesis by (simp add: indexed_bytes_def)
qed

lemma well_formed_cong:
  assumes "items s' = items s"
  shows "well_formed s' = well_formed s"
proof -
  have "getDiagnosisCacheIndex s' = getDiagnosisCacheIndex s"
    by (rule getDiagnosisCacheIndex_cong) (simp add: assms)
  moreover have "entry_bytes s' = entry_bytes s"
    by (rule ext, rule entry_bytes_cong) (simp add: assms)
  moreover have "entry_at s' = entry_at s"
    by (rule ext, rule entry_at_cong) (simp add: assms)
  moreover have "record_at s' = record_at s"
    by (rule ext, rule record_at_cong) (simp add: assms)
  ultimately show ?thesis by (simp add: well_formed_def cong: option.case_cong)
qed

lemma index_matches_store_cong:
  assumes "items s' = items s"
  shows "index_matches_store s' = index_matches_store s"
proof -
  have "getDiagnosisCacheIndex s' = getDiagnosisCacheIndex s"
    by (rule getDiagnosisCacheIndex_cong) (simp add: assms)
  then show ?thesis by (simp add: index_matches_store_def indexed_keys_def assms)
qed

subsection \<open>The entry that a store writes\<close>

lemma diagnosis_value_defined [simp]: "diagnosis_value d \<noteq> JUndefined"
  by (simp add: diagnosis_value_def)

lemma to_json_new_entry:
  "to_json (new_entry P organName' imageHash' diagnosis' now) =
     JObj [(''organName'', JStr organName'),
           (''imageHash'', JStr imageHash'),
           (''diagnosis'', to_json (diagnosis_value diagnosis')),
           (''timestamp'', JNum (Finite (of_int now))),
           (''expiresAt'', JNum (Finite (of_int (now + expiry_ms P))))]"
  by (simp add: new_entry_def)

lemma as_entry_new_entry:
  "as_entry (to_json (new_entry P organName' imageHash' diagnosis' now)) =
     Some \<lparr>organName = JStr organName', imageHash = JStr imageHash',
           diagnosis = to_json (diagnosis_value diagnosis'),
           timestamp = of_int now, expiresAt = of_int (now + expiry_ms P)\<rparr>"
  by (simp add: to_json_new_entry as_entry_def)

lemma new_entry_not_list:
  "to_json (new_entry P organName' imageHash' diagnosis' now) \<noteq> JArr xs"
  "to_json (new_entry P organName' imageHash' diagnosis' now) \<noteq> JStr str"
  by (simp_all add: to_json_new_entry)

lemma to_json_diagnosis_value:
  "to_json (diagnosis_value d) =
     JObj [(''organ'', JStr (organ d)),
           (''healthStatus'', JStr (health_status_text (healthStatus d))),
           (''disease'', JStr (disease d)),
           (''confidenceLevel'', to_json (JNum (confidenceLevel d))),
           (''statusRating'', to_json (JNum (statusRating d))),
           (''detailedFindings'', JStr (detailedFindings d)),
           (''treatmentSuggestion'', JStr (treatmentSuggestion d))]"
  by (simp add: diagnosis_value_def)

text \<open>A diagnosis whose two numbers are finite comes back from JSON as it went in.\<close>

lemma to_json_diagnosis_value_finite:
  "confidenceLevel d = Finite x \<Longrightarrow> statusRating d = Finite y \<Longrightarrow>
   to_json (diagnosis_value d) = diagnosis_value d"
  by (simp add: diagnosis_value_def)

subsection \<open>Writing a record\<close>

lemma getDiagnosisCacheIndex_setItem_entry:
  "key \<noteq> ''index'' \<Longrightarrow>
   getDiagnosisCacheIndex (snd (setItem (DIAGNOSIS_CACHE_PREFIX @ key) v s)) = getDiagnosisCacheIndex s"
  by (rule getDiagnosisCacheIndex_cong) (simp add: items_setItem index_key_eq_entry_key)

lemma items_setItem_entry:
  "items (snd (setItem (DIAGNOSIS_CACHE_PREFIX @ key) v s)) (DIAGNOSIS_CACHE_PREFIX @ k') =
     (if next_write s = None \<and> k' = key then Some v else items s (DIAGNOSIS_CACHE_PREFIX @ k'))"
  by (simp add: items_setItem)

lemma entry_bytes_setItem_entry:
  "entry_bytes (snd (setItem (DIAGNOSIS_CACHE_PREFIX @ key) (JSON_stringify P v) s)) k' =
     (if next_write s = None \<and> k' = key then json_length P (to_json v) else entry_bytes s k')"
  by (simp add: entry_bytes_def items_setItem_entry JSON_stringify_def)

lemma record_at_setItem_entry:
  "record_at (snd (setItem (DIAGNOSIS_CACHE_PREFIX @ key) (JSON_stringify P v) s)) k' =
     (if next_write s = None \<and> k' = key then Some (to_json v) else record_at s k')"
  by (simp add: record_at_def items_setItem_entry JSON_stringify_def)

lemma entry_at_setItem_entry:
  "entry_at (snd (setItem (DIAGNOSIS_CACHE_PREFIX @ key) (JSON_stringify P v) s)) k' =
     (if next_write s = None \<and> k' = key then as_entry (to_json v) else entry_at s k')"
  by (simp add: entry_at_def record_at_setItem_entry)

lemma entry_bytes_updateDiagnosisCacheIndex:
  "k \<noteq> ''index'' \<Longrightarrow> entry_bytes (updateDiagnosisCacheIndex P v s) k = entry_bytes s k"
  by (rule entry_bytes_cong) (rule items_updateDiagnosisCacheIndex_entry)

lemma record_at_updateDiagnosisCacheIndex:
  "k \<noteq> ''index'' \<Longrightarrow> record_at (updateDiagnosisCacheIndex P v s) k = record_at s k"
  by (rule record_at_cong) (rule items_updateDiagnosisCacheIndex_entry)

lemma entry_at_updateDiagnosisCacheIndex:
  "k \<noteq> ''index'' \<Longrightarrow> entry_at (updateDiagnosisCacheIndex P v s) k = entry_at s k"
  by (rule entry_at_cong) (rule items_updateDiagnosisCacheIndex_entry)

lemma sum_list_replace_one:
  fixes f :: "'a \<Rightarrow> nat"
  assumes "distinct xs"
  shows "sum_list (map (\<lambda>x. if x = a then z else f x) xs)
         \<le> sum_list (map f xs) + (if a \<in> set xs then z else 0)"
  using assms by (induction xs) auto

lemma sum_list_replace_absent:
  fixes f :: "'a \<Rightarrow> nat"
  assumes "a \<notin> set xs"
  shows "sum_list (map (\<lambda>x. if x = a then z else f x) xs) = sum_list (map f xs)"
  using assms by (induction xs) auto

subsection \<open>Registering a key\<close>

lemma addToDiagnosisCacheIndex_strings:
  assumes "getDiagnosisCacheIndex s = JArr (map JStr keys)"
  shows "addToDiagnosisCacheIndex P key s =
     (Inr (), if key \<in> set keys then s else updateDiagnosisCacheIndex P (JArr (map JStr (keys @ [key]))) s)"
  using assms by (simp add: addToDiagnosisCacheIndex_def)

text \<open>A store that has written the record of the fingerprint \<open>index\<close> has replaced the index
  by an object, and the registration of the key throws.\<close>

lemma addToDiagnosisCacheIndex_object:
  "getDiagnosisCacheIndex s = JObj ps \<Longrightarrow> addToDiagnosisCacheIndex P key s = (Inl TypeError, s)"
  by (simp add: addToDiagnosisCacheIndex_def)

lemma addToDiagnosisCacheIndex_items:
  "k \<noteq> DIAGNOSIS_CACHE_INDEX_KEY \<Longrightarrow> items (snd (addToDiagnosisCacheIndex P key s)) k = items s k"
  by (simp add: addToDiagnosisCacheIndex_def items_updateDiagnosisCacheIndex split: js_value.splits)

subsection \<open>Writing an entry and registering its key\<close>


lemma write_entry_rejected:
  "next_write s = Some error \<Longrightarrow>
   write_entry P key v s = (Inl error, s\<lparr>faults := tl (faults s)\<rparr>)"
  by (simp add: write_entry_def setItem_eq)

lemma write_entry_accepted:
  "next_write s = None \<Longrightarrow>
   write_entry P key v s =
     addToDiagnosisCacheIndex P key (snd (setItem (DIAGNOSIS_CACHE_PREFIX @ key) (JSON_stringify P v) s))"
  by (simp add: write_entry_def setItem_eq)

text \<open>A write that goes through, in any store: the key is not \<open>index\<close>, the record is the
  text of the entry, and no other record has changed.\<close>

lemma write_entry_done:
  assumes "write_entry P key (new_entry P organName' imageHash' diagnosis' now) s = (Inr u, s')"
  shows "key \<noteq> ''index''" and "next_write s = None"
    and "items s' (DIAGNOSIS_CACHE_PREFIX @ key) =
           Some (JSON_stringify P (new_entry P organName' imageHash' diagnosis' now))"
    and "\<And>k. k \<noteq> DIAGNOSIS_CACHE_INDEX_KEY \<Longrightarrow> k \<noteq> DIAGNOSIS_CACHE_PREFIX @ key \<Longrightarrow> items s' k = items s k"
proof -
  let ?v = "new_entry P organName' imageHash' diagnosis' now"
  let ?s2 = "snd (setItem (DIAGNOSIS_CACHE_PREFIX @ key) (JSON_stringify P ?v) s)"
  show acc: "next_write s = None"
  proof (rule ccontr)
    assume "next_write s \<noteq> None"
    then obtain error where "next_write s = Some error" by auto
    from write_entry_rejected [OF this] assms show False by simp
  qed
  from assms have add: "addToDiagnosisCacheIndex P key ?s2 = (Inr u, s')"
    by (simp add: write_entry_accepted [OF acc])
  show key: "key \<noteq> ''index''"
  proof
    assume "key = ''index''"
    then have "DIAGNOSIS_CACHE_PREFIX @ key = DIAGNOSIS_CACHE_INDEX_KEY"
      by (simp add: entry_key_eq_index_key)
    then have "items ?s2 DIAGNOSIS_CACHE_INDEX_KEY = Some (JSON_stringify P ?v)"
      using acc by (simp add: items_setItem)
    then have "getDiagnosisCacheIndex ?s2 = to_json ?v"
      by (rule getDiagnosisCacheIndex_stringify)
    then have "addToDiagnosisCacheIndex P key ?s2 = (Inl TypeError, ?s2)"
      by (simp add: to_json_new_entry addToDiagnosisCacheIndex_object)
    with add show False by simp
  qed
  have s': "s' = snd (addToDiagnosisCacheIndex P key ?s2)"
    using add by simp
  have ne: "DIAGNOSIS_CACHE_PREFIX @ key \<noteq> DIAGNOSIS_CACHE_INDEX_KEY"
    using key by (simp add: entry_key_eq_index_key)
  show "items s' (DIAGNOSIS_CACHE_PREFIX @ key) = Some (JSON_stringify P ?v)"
    using acc by (simp add: s' addToDiagnosisCacheIndex_items [OF ne] items_setItem)
  show "items s' k = items s k"
    if "k \<noteq> DIAGNOSIS_CACHE_INDEX_KEY" "k \<noteq> DIAGNOSIS_CACHE_PREFIX @ key" for k
    using that by (simp add: s' addToDiagnosisCacheIndex_items items_setItem)
qed

text \<open>A write on a well-formed store that the backing storage accepts.\<close>

lemma write_entry_well_formed:
  assumes wf: "well_formed s" and key: "key \<noteq> ''index''" "key \<noteq> []"
    and acc: "next_write s = None" and en: "as_entry (to_json v) \<noteq> None"
  shows "\<exists>s3. write_entry P key v s = (Inr (), s3) \<and> well_formed s3 \<and>
           indexed_bytes s3 \<le> indexed_bytes s + json_length P (to_json v) \<and>
           faults s3 = tl (if key \<in> set (indexed_keys s) then faults s else tl (faults s)) \<and>
           indexed_keys s3 =
             (if key \<in> set (indexed_keys s) \<or> next_write (s\<lparr>faults := tl (faults s)\<rparr>) \<noteq> None
              then indexed_keys s else indexed_keys s @ [key]) \<and>
           (\<forall>k. k \<noteq> ''index'' \<longrightarrow>
              items s3 (DIAGNOSIS_CACHE_PREFIX @ k) =
                (if k = key then Some (JSON_stringify P v) else items s (DIAGNOSIS_CACHE_PREFIX @ k)))"
proof -
  let ?s2 = "snd (setItem (DIAGNOSIS_CACHE_PREFIX @ key) (JSON_stringify P v) s)"
  let ?idx = "indexed_keys s"
  let ?z = "json_length P (to_json v)"
  note index = well_formed_index [OF wf]
  from wf have d: "distinct ?idx" and noidx: "''index'' \<notin> set ?idx" and nonil: "[] \<notin> set ?idx"
    and recs: "\<And>k. k \<in> set ?idx \<Longrightarrow> entry_at s k \<noteq> None \<or> (record_at s k = None \<and> entry_bytes s k = 0)"
    by (auto simp: well_formed_iff)
  have index2: "getDiagnosisCacheIndex ?s2 = JArr (map JStr ?idx)"
    using getDiagnosisCacheIndex_setItem_entry [OF key(1)] index by simp
  have f2: "faults ?s2 = tl (faults s)" by simp
  have nw2: "next_write ?s2 = next_write (s\<lparr>faults := tl (faults s)\<rparr>)"
    by (simp add: next_write_def)
  have b2: "entry_bytes ?s2 = (\<lambda>k'. if k' = key then ?z else entry_bytes s k')"
    by (rule ext) (simp add: entry_bytes_setItem_entry acc)
  have e2: "entry_at ?s2 = (\<lambda>k'. if k' = key then as_entry (to_json v) else entry_at s k')"
    by (rule ext) (simp add: entry_at_setItem_entry acc)
  have r2: "record_at ?s2 = (\<lambda>k'. if k' = key then Some (to_json v) else record_at s k')"
    by (rule ext) (simp add: record_at_setItem_entry acc)
  have i2: "items ?s2 (DIAGNOSIS_CACHE_PREFIX @ k) =
      (if k = key then Some (JSON_stringify P v) else items s (DIAGNOSIS_CACHE_PREFIX @ k))" for k
    by (simp add: items_setItem_entry acc)
  note add = addToDiagnosisCacheIndex_strings [OF index2, of P key]
  show ?thesis
  proof (cases "key \<in> set ?idx")
    case True
    then have w: "write_entry P key v s = (Inr (), ?s2)"
      by (simp add: write_entry_accepted [OF acc] add)
    have "indexed_keys ?s2 = ?idx" by (rule indexed_keys_strings [OF index2])
    moreover have "sum_list (map (entry_bytes ?s2) ?idx) \<le> sum_list (map (entry_bytes s) ?idx) + ?z"
      using sum_list_replace_one [OF d, of key ?z "entry_bytes s"] True
      by (simp add: b2)
    moreover have "well_formed ?s2"
      using d noidx nonil recs en index2 \<open>indexed_keys ?s2 = ?idx\<close>
      by (auto simp: well_formed_iff [of ?s2] b2 e2 r2)
    ultimately show ?thesis using w True i2 by (simp add: indexed_bytes_def)
  next
    case False
    let ?s3 = "updateDiagnosisCacheIndex P (JArr (map JStr ?idx @ [JStr key])) ?s2"
    have new: "JArr (map JStr ?idx @ [JStr key]) = JArr (map JStr (?idx @ [key]))" by simp
    from False have w: "write_entry P key v s = (Inr (), ?s3)"
      by (simp add: write_entry_accepted [OF acc] add)
    have b3: "entry_bytes ?s3 k = entry_bytes ?s2 k" if "k \<noteq> ''index''" for k
      using that by (simp add: entry_bytes_updateDiagnosisCacheIndex)
    have e3: "entry_at ?s3 k = entry_at ?s2 k" if "k \<noteq> ''index''" for k
      using that by (simp add: entry_at_updateDiagnosisCacheIndex)
    have r3: "record_at ?s3 k = record_at ?s2 k" if "k \<noteq> ''index''" for k
      using that by (simp add: record_at_updateDiagnosisCacheIndex)
    have i3: "items ?s3 (DIAGNOSIS_CACHE_PREFIX @ k) =
        (if k = key then Some (JSON_stringify P v) else items s (DIAGNOSIS_CACHE_PREFIX @ k))"
      if "k \<noteq> ''index''" for k
      using that by (simp add: items_updateDiagnosisCacheIndex_entry i2)
    have old: "sum_list (map (entry_bytes ?s3) ?idx) = sum_list (map (entry_bytes s) ?idx)"
    proof -
      have "map (entry_bytes ?s3) ?idx = map (entry_bytes ?s2) ?idx"
        using noidx by (intro map_cong refl b3) auto
      also have "sum_list \<dots> = sum_list (map (entry_bytes s) ?idx)"
        using sum_list_replace_absent [OF False, of ?z "entry_bytes s"]
        by (simp add: b2)
      finally show ?thesis .
    qed
    have okrec: "entry_at ?s3 k \<noteq> None \<or> (record_at ?s3 k = None \<and> entry_bytes ?s3 k = 0)"
      if "k \<in> set ?idx \<or> k = key" for k
    proof -
      from that noidx key(1) have "k \<noteq> ''index''" by auto
      with that recs [of k] en show ?thesis
        by (auto simp: b3 e3 r3 b2 e2 r2)
    qed
    have index3: "getDiagnosisCacheIndex ?s3 =
        (if next_write ?s2 = None then JArr (map JStr (?idx @ [key])) else JArr (map JStr ?idx))"
      using index2 by (simp only: new getDiagnosisCacheIndex_update to_json_strings)
    show ?thesis
    proof (cases "next_write ?s2 = None")
      case True
      with index3 have idx3: "getDiagnosisCacheIndex ?s3 = JArr (map JStr (?idx @ [key]))" by simp
      then have k3: "indexed_keys ?s3 = ?idx @ [key]" by (rule indexed_keys_strings)
      have "indexed_bytes ?s3 = indexed_bytes s + ?z"
        using old by (simp add: indexed_bytes_def k3 b3 [OF key(1)] b2)
      moreover have "well_formed ?s3"
        using d noidx nonil False key okrec idx3 k3 by (auto simp: well_formed_iff [of ?s3])
      ultimately show ?thesis using w False True k3 i3 nw2 by simp
    next
      case nacc: False
      with index3 have idx3: "getDiagnosisCacheIndex ?s3 = JArr (map JStr ?idx)" by simp
      then have k3: "indexed_keys ?s3 = ?idx" by (rule indexed_keys_strings)
      have "indexed_bytes ?s3 = indexed_bytes s"
        using old by (simp add: indexed_bytes_def k3)
      moreover have "well_formed ?s3"
        using d noidx nonil okrec idx3 k3 by (auto simp: well_formed_iff [of ?s3])
      ultimately show ?thesis using w False nacc k3 i3 nw2 by simp
    qed
  qed
qed

subsection \<open>The store operation\<close>


lemma well_formed_delete_bytes:
  assumes wf: "well_formed s" and k: "k \<noteq> ''index''"
  shows "indexed_bytes (snd (deleteCachedDiagnosis P (JStr k) s)) \<le> indexed_bytes s"
  unfolding indexed_bytes_def
  using wf by (intro size_delete_le [OF well_formed_index [OF wf] _ k]) (simp add: well_formed_iff)

text \<open>A sweep of a well-formed store returns, and leaves a well-formed store that is no
  larger.\<close>

lemma sweep_well_formed:
  assumes wf: "well_formed s"
  shows "\<exists>n s'. clearExpiredDiagnoses P now s = (Inr n, s') \<and> well_formed s' \<and>
           indexed_bytes s' \<le> indexed_bytes s \<and> (faults s = [] \<longrightarrow> faults s' = [])"
proof -
  let ?keys = "map JStr (indexed_keys s)"
  let ?I = "\<lambda>s'. well_formed s' \<and> indexed_bytes s' \<le> indexed_bytes s \<and> (faults s = [] \<longrightarrow> faults s' = [])"
  have it: "for_of (getDiagnosisCacheIndex s) = Inr ?keys"
    by (simp add: well_formed_index [OF wf])
  have "?I (fst (sweep_loop P now ?keys (s, 0)))"
  proof (rule sweep_loop_invariant [where I = ?I])
    show "?I s" using wf by simp
  next
    fix s' key cached e
    assume I: "?I s'" and key: "key \<in> set ?keys"
    then obtain k where k: "key = JStr k" "k \<in> set (indexed_keys s)" by auto
    with wf have ne: "k \<noteq> ''index''" by (auto simp: well_formed_iff)
    from I have wf': "well_formed s'" by simp
    from well_formed_delete_bytes [OF wf' ne, of P] well_formed_delete [OF wf' ne, of P] I
      deleteCachedDiagnosis_strings(2) [OF well_formed_index [OF wf'] ne, of P]
    show "?I (snd (deleteCachedDiagnosis P key s'))"
      by (auto simp: k(1))
  qed
  then show ?thesis
    by (simp add: clearExpiredDiagnoses_iterable [OF it])
qed

lemma cacheDiagnosis_try_well_formed:
  assumes wf: "well_formed s" and pos: "0 < max_cache_bytes P"
  shows "\<exists>s1. evict_while_full P s = Some (Inr (), s1) \<and> well_formed s1 \<and>
           indexed_bytes s1 < max_cache_bytes P \<and> indexed_bytes s1 \<le> indexed_bytes s \<and>
           (faults s = [] \<longrightarrow> faults s1 = []) \<and>
           cacheDiagnosis_try P key v s = Some (write_entry P key v s1)"
proof -
  from evict_while_full_terminates [OF wf pos]
  obtain s1 where s1: "evict_while_full P s = Some (Inr (), s1)" "well_formed s1"
    "indexed_bytes s1 < max_cache_bytes P" "indexed_bytes s1 \<le> indexed_bytes s"
    "faults s = [] \<longrightarrow> faults s1 = []"
    unfolding indexed_bytes_def by blast
  then have "cacheDiagnosis_try P key v s = Some (write_entry P key v s1)"
    by (simp add: cacheDiagnosis_try_def)
  with s1 show ?thesis by blast
qed

lemma cacheDiagnosis_cases:
  "cacheDiagnosis P organName' imageData diagnosis' now s =
     (case cacheDiagnosis_try P (generateImageHash imageData)
             (new_entry P organName' (generateImageHash imageData) diagnosis' now) s of
        None \<Rightarrow> None
      | Some (Inr u, s1) \<Rightarrow> Some (Inr True, s1)
      | Some (Inl error, s1) \<Rightarrow>
          if error = QuotaExceededError then
            (case clearExpiredDiagnoses P now s1 of
               (Inl sweepError, s2) \<Rightarrow> Some (Inl sweepError, s2)
             | (Inr clearedCount, s2) \<Rightarrow>
                 (case write_entry P (generateImageHash imageData)
                         (new_entry P organName' (generateImageHash imageData) diagnosis' now) s2 of
                    (Inl retryError, s3) \<Rightarrow> Some (Inr False, s3)
                  | (Inr u, s3) \<Rightarrow> Some (Inr True, s3)))
          else Some (Inr False, s1))"
  by (simp add: cacheDiagnosis_def Let_def)

text \<open>A store on a well-formed store with a positive budget returns a boolean, and leaves a
  well-formed store whose total is below the budget plus the size of the entry it wrote.\<close>

lemma cacheDiagnosis_bound:
  assumes wf: "well_formed s" and pos: "0 < max_cache_bytes P"
    and key: "generateImageHash imageData \<noteq> ''index''"
  shows "\<exists>ok s'. cacheDiagnosis P organName' imageData diagnosis' now s = Some (Inr ok, s') \<and>
           well_formed s' \<and>
           indexed_bytes s' <
             max_cache_bytes P +
             (if ok then json_length P (to_json (new_entry P organName' (generateImageHash imageData) diagnosis' now))
              else 0)"
proof -
  let ?key = "generateImageHash imageData"
  let ?v = "new_entry P organName' ?key diagnosis' now"
  from cacheDiagnosis_try_well_formed [OF wf pos, of ?key ?v]
  obtain s1 where s1: "well_formed s1" "indexed_bytes s1 < max_cache_bytes P"
    and tr: "cacheDiagnosis_try P ?key ?v s = Some (write_entry P ?key ?v s1)" by blast
  have nonempty: "?key \<noteq> []" by (rule generateImageHash_nonempty)
  have en: "as_entry (to_json ?v) \<noteq> None" by (simp add: as_entry_new_entry)
  note cd = cacheDiagnosis_cases [of P organName' imageData diagnosis' now s]
  show ?thesis
  proof (cases "next_write s1")
    case None
    from write_entry_well_formed [OF s1(1) key nonempty None en, of P]
    obtain s3 where "write_entry P ?key ?v s1 = (Inr (), s3)" "well_formed s3"
      "indexed_bytes s3 \<le> indexed_bytes s1 + json_length P (to_json ?v)" by blast
    with s1(2) cd tr show ?thesis by auto
  next
    case (Some e)
    let ?s2 = "s1\<lparr>faults := tl (faults s1)\<rparr>"
    have w: "write_entry P ?key ?v s1 = (Inl e, ?s2)" by (rule write_entry_rejected [OF Some])
    have wf2: "well_formed ?s2" using s1(1) well_formed_cong [of ?s2 s1] by simp
    have sz2: "indexed_bytes ?s2 = indexed_bytes s1"
      by (rule indexed_bytes_cong) simp
    show ?thesis
    proof (cases "e = QuotaExceededError")
      case False
      with cd tr w wf2 sz2 s1(2) show ?thesis by auto
    next
      case True
      from sweep_well_formed [OF wf2, of P now]
      obtain n s3 where sw: "clearExpiredDiagnoses P now ?s2 = (Inr n, s3)" "well_formed s3"
        "indexed_bytes s3 \<le> indexed_bytes ?s2" by blast
      show ?thesis
      proof (cases "next_write s3")
        case None
        from write_entry_well_formed [OF sw(2) key nonempty None en, of P]
        obtain s4 where "write_entry P ?key ?v s3 = (Inr (), s4)" "well_formed s4"
          "indexed_bytes s4 \<le> indexed_bytes s3 + json_length P (to_json ?v)" by blast
        with cd tr w True sw sz2 s1(2) show ?thesis by auto
      next
        case (Some e')
        let ?s4 = "s3\<lparr>faults := tl (faults s3)\<rparr>"
        have w': "write_entry P ?key ?v s3 = (Inl e', ?s4)" by (rule write_entry_rejected [OF Some])
        have "well_formed ?s4" using sw(2) well_formed_cong [of ?s4 s3] by simp
        moreover have "indexed_bytes ?s4 = indexed_bytes s3"
          by (rule indexed_bytes_cong) simp
        ultimately show ?thesis
          using cd tr w True sw sz2 s1(2) w' by auto
      qed
    qed
  qed
qed

subsection \<open>A store whose writes are accepted, and the lookup\<close>


text \<open>A store on a well-formed store over a backing storage that accepts every write.\<close>

lemma store_effect_after_eviction:
  assumes wf: "well_formed s" and pos: "0 < max_cache_bytes P" and nf: "faults s = []"
    and key: "generateImageHash imageData \<noteq> ''index''"
  shows "\<exists>s1 s'. evict_while_full P s = Some (Inr (), s1) \<and> well_formed s1 \<and> faults s1 = [] \<and>
           indexed_bytes s1 < max_cache_bytes P \<and>
           cacheDiagnosis P organName' imageData diagnosis' now s = Some (Inr True, s') \<and>
           well_formed s' \<and> faults s' = [] \<and>
           indexed_keys s' =
             (if generateImageHash imageData \<in> set (indexed_keys s1) then indexed_keys s1
              else indexed_keys s1 @ [generateImageHash imageData]) \<and>
           (\<forall>k. k \<noteq> ''index'' \<longrightarrow>
              items s' (DIAGNOSIS_CACHE_PREFIX @ k) =
                (if k = generateImageHash imageData
                 then Some (JSON_stringify P (new_entry P organName' (generateImageHash imageData) diagnosis' now))
                 else items s1 (DIAGNOSIS_CACHE_PREFIX @ k)))"
proof -
  let ?key = "generateImageHash imageData"
  let ?v = "new_entry P organName' ?key diagnosis' now"
  from cacheDiagnosis_try_well_formed [OF wf pos, of ?key ?v] nf
  obtain s1 where s1: "evict_while_full P s = Some (Inr (), s1)" "well_formed s1"
    "indexed_bytes s1 < max_cache_bytes P" "faults s1 = []"
    and tr: "cacheDiagnosis_try P ?key ?v s = Some (write_entry P ?key ?v s1)" by blast
  have nw: "next_write s1 = None" using s1(4) by simp
  have en: "as_entry (to_json ?v) \<noteq> None" by (simp add: as_entry_new_entry)
  from write_entry_well_formed [OF s1(2) key generateImageHash_nonempty nw en, of P]
  obtain s3 where s3: "write_entry P ?key ?v s1 = (Inr (), s3)" "well_formed s3"
    "faults s3 = tl (if ?key \<in> set (indexed_keys s1) then faults s1 else tl (faults s1))"
    "indexed_keys s3 =
       (if ?key \<in> set (indexed_keys s1) \<or> next_write (s1\<lparr>faults := tl (faults s1)\<rparr>) \<noteq> None
        then indexed_keys s1 else indexed_keys s1 @ [?key])"
    "\<forall>k. k \<noteq> ''index'' \<longrightarrow>
       items s3 (DIAGNOSIS_CACHE_PREFIX @ k) =
         (if k = ?key then Some (JSON_stringify P ?v) else items s1 (DIAGNOSIS_CACHE_PREFIX @ k))"
    by blast
  have "cacheDiagnosis P organName' imageData diagnosis' now s = Some (Inr True, s3)"
    by (simp add: cacheDiagnosis_cases tr s3(1))
  moreover have "faults s3 = []" using s3(3) s1(4) by simp
  moreover have "indexed_keys s3 =
      (if ?key \<in> set (indexed_keys s1) then indexed_keys s1 else indexed_keys s1 @ [?key])"
    using s3(4) s1(4) by (simp add: next_write_def)
  ultimately show ?thesis using s1 s3(2,5) by blast
qed

lemma store_effect:
  assumes wf: "well_formed s" and nf: "faults s = []" and room: "indexed_bytes s < max_cache_bytes P"
    and key: "generateImageHash imageData \<noteq> ''index''"
  shows "\<exists>s'. cacheDiagnosis P organName' imageData diagnosis' now s = Some (Inr True, s') \<and>
           well_formed s' \<and> faults s' = [] \<and>
           indexed_keys s' =
             (if generateImageHash imageData \<in> set (indexed_keys s) then indexed_keys s
              else indexed_keys s @ [generateImageHash imageData]) \<and>
           (\<forall>k. k \<noteq> ''index'' \<longrightarrow>
              items s' (DIAGNOSIS_CACHE_PREFIX @ k) =
                (if k = generateImageHash imageData
                 then Some (JSON_stringify P (new_entry P organName' (generateImageHash imageData) diagnosis' now))
                 else items s (DIAGNOSIS_CACHE_PREFIX @ k)))"
proof -
  from room have pos: "0 < max_cache_bytes P" by simp
  from room have "isDiagnosisCacheFull P s = Inr False"
    by (simp add: well_formed_full [OF wf] indexed_bytes_def)
  then have ev: "evict_while_full P s = Some (Inr (), s)" by (rule evict_while_full_not_full)
  from store_effect_after_eviction [OF wf pos nf key, of organName' diagnosis' now] ev
  show ?thesis by auto
qed

subsection \<open>The record a successful store leaves, and the lookup\<close>

lemma cacheDiagnosis_True:
  assumes "cacheDiagnosis P organName' imageData diagnosis' now s = Some (Inr True, s')"
  shows "\<exists>sx. write_entry P (generateImageHash imageData)
                 (new_entry P organName' (generateImageHash imageData) diagnosis' now) sx = (Inr (), s')"
proof -
  let ?key = "generateImageHash imageData"
  let ?v = "new_entry P organName' ?key diagnosis' now"
  note cd = assms [unfolded cacheDiagnosis_cases]
  show ?thesis
  proof (cases "cacheDiagnosis_try P ?key ?v s")
    case None
    with cd show ?thesis by simp
  next
    case (Some rs)
    obtain r s1 where rs: "rs = (r, s1)" by (cases rs)
    show ?thesis
    proof (cases r)
      case (Inr u)
      with cd Some rs have s': "s' = s1" by simp
      from Some rs Inr obtain sx where "write_entry P ?key ?v sx = (Inr u, s1)"
        by (auto simp: cacheDiagnosis_try_def split: option.splits sum.splits prod.splits)
      with s' show ?thesis by auto
    next
      case (Inl error)
      with cd Some rs show ?thesis
        by (auto split: if_splits prod.splits sum.splits)
    qed
  qed
qed

lemma stored_record_after_store:
  assumes "cacheDiagnosis P organName' imageData diagnosis' now s = Some (Inr True, s')"
  shows "generateImageHash imageData \<noteq> ''index''"
    and "items s' (DIAGNOSIS_CACHE_PREFIX @ generateImageHash imageData) =
           Some (JSON_stringify P (new_entry P organName' (generateImageHash imageData) diagnosis' now))"
proof -
  from cacheDiagnosis_True [OF assms] obtain sx where
    sx: "write_entry P (generateImageHash imageData)
           (new_entry P organName' (generateImageHash imageData) diagnosis' now) sx = (Inr (), s')"
    by blast
  show "generateImageHash imageData \<noteq> ''index''" by (rule write_entry_done(1) [OF sx])
  show "items s' (DIAGNOSIS_CACHE_PREFIX @ generateImageHash imageData) =
           Some (JSON_stringify P (new_entry P organName' (generateImageHash imageData) diagnosis' now))"
    by (rule write_entry_done(3) [OF sx])
qed

lemma record_at_stringify:
  "items s (DIAGNOSIS_CACHE_PREFIX @ k) = Some (JSON_stringify P v) \<Longrightarrow> record_at s k = Some (to_json v)"
  by (simp add: record_at_def JSON_stringify_def)

lemma entry_bytes_stringify:
  "items s (DIAGNOSIS_CACHE_PREFIX @ k) = Some (JSON_stringify P v) \<Longrightarrow>
   entry_bytes s k = json_length P (to_json v)"
  by (simp add: entry_bytes_def JSON_stringify_def)

lemma entry_at_stringify:
  "items s (DIAGNOSIS_CACHE_PREFIX @ k) =
     Some (JSON_stringify P (new_entry P organName' imageHash' diagnosis' now)) \<Longrightarrow>
   entry_at s k =
     Some \<lparr>organName = JStr organName', imageHash = JStr imageHash',
           diagnosis = to_json (diagnosis_value diagnosis'),
           timestamp = of_int now, expiresAt = of_int (now + expiry_ms P)\<rparr>"
  by (simp add: entry_at_def record_at_stringify as_entry_new_entry)

lemma record_at_absent: "items s (DIAGNOSIS_CACHE_PREFIX @ k) = None \<Longrightarrow> record_at s k = None"
  by (simp add: record_at_def)

lemma entry_at_absent: "items s (DIAGNOSIS_CACHE_PREFIX @ k) = None \<Longrightarrow> entry_at s k = None"
  by (simp add: entry_at_def record_at_def)

lemma entry_bytes_absent: "items s (DIAGNOSIS_CACHE_PREFIX @ k) = None \<Longrightarrow> entry_bytes s k = 0"
  by (simp add: entry_bytes_def)

lemma entry_after_store:
  assumes "cacheDiagnosis P organName' imageData diagnosis' now s = Some (Inr True, s')"
  shows "entry_at s' (generateImageHash imageData) =
           Some \<lparr>organName = JStr organName', imageHash = JStr (generateImageHash imageData),
                 diagnosis = to_json (diagnosis_value diagnosis'),
                 timestamp = of_int now, expiresAt = of_int (now + expiry_ms P)\<rparr>"
  by (rule entry_at_stringify [OF stored_record_after_store(2) [OF assms]])

lemma getCachedDiagnosis_record:
  "getCachedDiagnosis P imageData now s =
     (case record_at s (generateImageHash imageData) of
        None \<Rightarrow> (JNull, s)
      | Some cached \<Rightarrow>
          (case get_prop cached ''expiresAt'' of
             Inl error \<Rightarrow> (JNull, s)
           | Inr e \<Rightarrow>
               if js_gt P (Date_now now) e
               then (JNull, snd (deleteCachedDiagnosis P (JStr (generateImageHash imageData)) s))
               else (case get_prop cached ''diagnosis'' of
                       Inl error \<Rightarrow> (JNull, s)
                     | Inr d \<Rightarrow> (d, s))))"
  by (simp add: getCachedDiagnosis_def record_at_def Let_def split: option.splits sum.splits)

lemma getCachedDiagnosis_entry:
  "entry_at s (generateImageHash imageData) = Some cached \<Longrightarrow>
   getCachedDiagnosis P imageData now s =
     (if expiresAt cached < of_int now
      then (JNull, snd (deleteCachedDiagnosis P (JStr (generateImageHash imageData)) s))
      else (diagnosis cached, s))"
  by (auto simp: getCachedDiagnosis_record as_entry_props dest!: entry_at_record_at)

lemma getCachedDiagnosis_absent:
  "record_at s (generateImageHash imageData) = None \<Longrightarrow> getCachedDiagnosis P imageData now s = (JNull, s)"
  by (simp add: getCachedDiagnosis_record)

section \<open>The concrete scenario of the specification\<close>


lemma hash_a: "generateImageHash ''a'' = ''1s00g''"
  unfolding generateImageHash_def Let_def
  by (simp add: substring_def toString_radix.simps digit_char_def)

lemma hash_b: "generateImageHash ''b'' = ''1snrj''"
  unfolding generateImageHash_def Let_def
  by (simp add: substring_def toString_radix.simps digit_char_def)

lemma hash_c: "generateImageHash ''c'' = ''1tbim''"
  unfolding generateImageHash_def Let_def
  by (simp add: substring_def toString_radix.simps digit_char_def)

lemma hash_d: "generateImageHash ''d'' = ''1tz9p''"
  unfolding generateImageHash_def Let_def
  by (simp add: substring_def toString_radix.simps digit_char_def)

text \<open>An image whose fingerprint is the string \<open>index\<close>.\<close>

lemma hash_ocvdhc: "generateImageHash ''ocvdhc'' = ''index''"
  unfolding generateImageHash_def Let_def
  by (simp add: substring_def toString_radix.simps digit_char_def)

lemma getDiagnosisCacheIndex_empty [simp]: "getDiagnosisCacheIndex empty_storage = JArr []"
  by (simp add: getDiagnosisCacheIndex_def empty_storage_def)

lemma indexed_keys_empty [simp]: "indexed_keys empty_storage = []"
  by (simp add: indexed_keys_def string_keys_def)

lemma items_empty [simp]: "items empty_storage k = None"
  by (simp add: empty_storage_def)

lemma faults_empty [simp]: "faults empty_storage = []"
  by (simp add: empty_storage_def)

lemma well_formed_empty: "well_formed empty_storage"
  by (simp add: well_formed_def string_keys_def)

lemma indexed_bytes_empty [simp]: "indexed_bytes empty_storage = 0"
  by (simp add: indexed_bytes_def)

lemma index_matches_store_empty: "index_matches_store empty_storage"
  by (simp add: index_matches_store_def string_keys_def)

lemma scenario_three_stores:
  "\<exists>s3. run_calls scenario_params
          [(1, Store_call ''lung'' ''a'' sample_diagnosis),
           (2, Store_call ''lung'' ''b'' sample_diagnosis),
           (3, Store_call ''lung'' ''c'' sample_diagnosis)] empty_storage = Some s3 \<and>
        well_formed s3 \<and> faults s3 = [] \<and>
        indexed_keys s3 = [''1s00g'', ''1snrj'', ''1tbim''] \<and>
        indexed_bytes s3 = 120 \<and>
        (\<forall>k. k \<noteq> ''index'' \<longrightarrow>
           items s3 (DIAGNOSIS_CACHE_PREFIX @ k) =
             (if k = ''1tbim'' then Some (JSON_stringify scenario_params (new_entry scenario_params ''lung'' ''1tbim'' sample_diagnosis 3))
              else if k = ''1snrj'' then Some (JSON_stringify scenario_params (new_entry scenario_params ''lung'' ''1snrj'' sample_diagnosis 2))
              else if k = ''1s00g'' then Some (JSON_stringify scenario_params (new_entry scenario_params ''lung'' ''1s00g'' sample_diagnosis 1))
              else None))"
proof -
  let ?P = scenario_params
  have len: "\<And>v. json_length ?P v = 40" and budget: "max_cache_bytes ?P = 100"
    by (simp_all add: scenario_params_def)
  have room0: "indexed_bytes empty_storage < max_cache_bytes ?P" by (simp add: budget)
  from store_effect [OF well_formed_empty faults_empty room0, of "''a''" "''lung''" sample_diagnosis 1]
  obtain s1 where s1: "cacheDiagnosis ?P ''lung'' ''a'' sample_diagnosis 1 empty_storage = Some (Inr True, s1)"
    "well_formed s1" "faults s1 = []" "indexed_keys s1 = [''1s00g'']"
    "\<And>k. k \<noteq> ''index'' \<Longrightarrow> items s1 (DIAGNOSIS_CACHE_PREFIX @ k) =
       (if k = ''1s00g'' then Some (JSON_stringify ?P (new_entry ?P ''lung'' ''1s00g'' sample_diagnosis 1)) else None)"
    by (auto simp: hash_a)
  have "indexed_bytes s1 = 40"
    by (simp add: indexed_bytes_def s1(4) entry_bytes_stringify [OF s1(5) [of "''1s00g''", simplified]] len)
  then have room1: "indexed_bytes s1 < max_cache_bytes ?P" by (simp add: budget)
  from store_effect [OF s1(2,3) room1, of "''b''" "''lung''" sample_diagnosis 2]
  obtain s2 where s2: "cacheDiagnosis ?P ''lung'' ''b'' sample_diagnosis 2 s1 = Some (Inr True, s2)"
    "well_formed s2" "faults s2 = []" "indexed_keys s2 = [''1s00g'', ''1snrj'']"
    "\<And>k. k \<noteq> ''index'' \<Longrightarrow> items s2 (DIAGNOSIS_CACHE_PREFIX @ k) =
       (if k = ''1snrj'' then Some (JSON_stringify ?P (new_entry ?P ''lung'' ''1snrj'' sample_diagnosis 2))
        else if k = ''1s00g'' then Some (JSON_stringify ?P (new_entry ?P ''lung'' ''1s00g'' sample_diagnosis 1)) else None)"
    by (auto simp: hash_b s1(4) s1(5))
  have "indexed_bytes s2 = 80"
    by (simp add: indexed_bytes_def s2(4)
        entry_bytes_stringify [OF s2(5) [of "''1s00g''", simplified]]
        entry_bytes_stringify [OF s2(5) [of "''1snrj''", simplified]] len)
  then have room2: "indexed_bytes s2 < max_cache_bytes ?P" by (simp add: budget)
  from store_effect [OF s2(2,3) room2, of "''c''" "''lung''" sample_diagnosis 3]
  obtain s3 where s3: "cacheDiagnosis ?P ''lung'' ''c'' sample_diagnosis 3 s2 = Some (Inr True, s3)"
    "well_formed s3" "faults s3 = []" "indexed_keys s3 = [''1s00g'', ''1snrj'', ''1tbim'']"
    "\<And>k. k \<noteq> ''index'' \<Longrightarrow> items s3 (DIAGNOSIS_CACHE_PREFIX @ k) =
       (if k = ''1tbim'' then Some (JSON_stringify ?P (new_entry ?P ''lung'' ''1tbim'' sample_diagnosis 3))
        else if k = ''1snrj'' then Some (JSON_stringify ?P (new_entry ?P ''lung'' ''1snrj'' sample_diagnosis 2))
        else if k = ''1s00g'' then Some (JSON_stringify ?P (new_entry ?P ''lung'' ''1s00g'' sample_diagnosis 1)) else None)"
    by (auto simp: hash_c s2(4) s2(5))
  have "indexed_bytes s3 = 120"
    by (simp add: indexed_bytes_def s3(4)
        entry_bytes_stringify [OF s3(5) [of "''1s00g''", simplified]]
        entry_bytes_stringify [OF s3(5) [of "''1snrj''", simplified]]
        entry_bytes_stringify [OF s3(5) [of "''1tbim''", simplified]] len)
  moreover have "run_calls ?P
          [(1, Store_call ''lung'' ''a'' sample_diagnosis),
           (2, Store_call ''lung'' ''b'' sample_diagnosis),
           (3, Store_call ''lung'' ''c'' sample_diagnosis)] empty_storage = Some s3"
    by (simp add: s1(1) s2(1) s3(1))
  ultimately show ?thesis using s3 by blast
qed

section \<open>Stores in any state, and the fingerprint index\<close>


lemma evictOldestDiagnosis_cases:
  "evictOldestDiagnosis P s = (Inl TypeError, s) \<or> evictOldestDiagnosis P s = (Inr (), s) \<or>
   (\<exists>key. evictOldestDiagnosis P s = (Inr (), snd (deleteCachedDiagnosis P key s)))"
proof (cases "getDiagnosisCacheIndex s")
  case (JArr xs)
  then show ?thesis by (auto simp: evictOldestDiagnosis_def Let_def)
next
  case (JStr str)
  then show ?thesis by (auto simp: evictOldestDiagnosis_def Let_def)
qed (simp_all add: evictOldestDiagnosis_def)

lemma isDiagnosisCacheFull_cases:
  "isDiagnosisCacheFull P s = Inl error \<Longrightarrow>
   error = TypeError \<and> for_of (getDiagnosisCacheIndex s) = Inl TypeError"
  by (cases "getDiagnosisCacheIndex s")
    (simp_all add: isDiagnosisCacheFull_def getDiagnosisCacheSize_bytes_def)

lemma isDiagnosisCacheFull_iterable:
  "isDiagnosisCacheFull P s = Inr full \<Longrightarrow> \<exists>keys. for_of (getDiagnosisCacheIndex s) = Inr keys"
  by (cases "getDiagnosisCacheIndex s")
    (simp_all add: isDiagnosisCacheFull_def getDiagnosisCacheSize_bytes_def)

text \<open>A store creates no record under a key other than that of its fingerprint.\<close>

lemma store_other_records:
  assumes run: "cacheDiagnosis P organName' imageData diagnosis' now s = Some (r, s')"
    and k: "k \<noteq> generateImageHash imageData" "k \<noteq> ''index''"
  shows "items s' (DIAGNOSIS_CACHE_PREFIX @ k) = None \<or>
         items s' (DIAGNOSIS_CACHE_PREFIX @ k) = items s (DIAGNOSIS_CACHE_PREFIX @ k)"
proof -
  let ?K = "DIAGNOSIS_CACHE_PREFIX @ k"
  let ?I = "\<lambda>x. items x ?K = None \<or> items x ?K = items s ?K"
  let ?key = "generateImageHash imageData"
  let ?v = "new_entry P organName' ?key diagnosis' now"
  have K: "?K \<noteq> DIAGNOSIS_CACHE_INDEX_KEY" using k(2) by (simp add: entry_key_eq_index_key)
  have del: "?I (snd (deleteCachedDiagnosis P k' x))" if "?I x" for k' x
    using that by (auto simp: items_deleteCachedDiagnosis_any [OF K])
  have wr: "?I (snd (write_entry P ?key ?v x))" if "?I x" for x
    using that k(1)
    by (auto simp: write_entry_def setItem_eq addToDiagnosisCacheIndex_items [OF K] split: option.splits)
  have sweep: "?I (snd (clearExpiredDiagnoses P now x))" if "?I x" for x
  proof (cases "for_of (getDiagnosisCacheIndex x)")
    case (Inl error)
    with that show ?thesis by (simp add: clearExpiredDiagnoses_throws)
  next
    case (Inr keys)
    have "?I (fst (sweep_loop P now keys (x, 0)))"
      by (rule sweep_loop_invariant [where I = ?I]) (use that del in auto)
    then show ?thesis by (simp add: clearExpiredDiagnoses_iterable [OF Inr])
  qed
  have ev_step: "?I (snd (evictOldestDiagnosis P x))" if "?I x" for x
  proof -
    from evictOldestDiagnosis_cases [of P x]
    consider "snd (evictOldestDiagnosis P x) = x"
      | key where "snd (evictOldestDiagnosis P x) = snd (deleteCachedDiagnosis P key x)"
      by auto
    then show ?thesis
    proof cases
      case 1
      with that show ?thesis by simp
    next
      case 2
      with del [OF that, of key] show ?thesis by simp
    qed
  qed
  note cd = run [unfolded cacheDiagnosis_cases]
  show ?thesis
  proof (cases "evict_while_full P s")
    case None
    with cd show ?thesis by (simp add: cacheDiagnosis_try_def)
  next
    case (Some rs)
    obtain r0 s0 where rs: "rs = (r0, s0)" by (cases rs)
    from evict_while_full_rule [OF Some [unfolded rs], where I = ?I] ev_step
    have I0: "?I s0" by simp
    obtain r1 s1 where tr: "cacheDiagnosis_try P ?key ?v s = Some (r1, s1)" and I1: "?I s1"
    proof (cases r0)
      case (Inl error)
      with Some rs have "cacheDiagnosis_try P ?key ?v s = Some (Inl error, s0)"
        by (simp add: cacheDiagnosis_try_def)
      with I0 that show ?thesis by blast
    next
      case (Inr u)
      with Some rs have "cacheDiagnosis_try P ?key ?v s = Some (write_entry P ?key ?v s0)"
        by (simp add: cacheDiagnosis_try_def)
      with wr [OF I0] that [of "fst (write_entry P ?key ?v s0)" "snd (write_entry P ?key ?v s0)"]
      show ?thesis by simp
    qed
    show ?thesis
    proof (cases r1)
      case (Inr u)
      with cd tr I1 show ?thesis by auto
    next
      case (Inl error)
      show ?thesis
      proof (cases "error = QuotaExceededError")
        case False
        with cd tr Inl I1 show ?thesis by auto
      next
        case True
        obtain r2 s2 where sw: "clearExpiredDiagnoses P now s1 = (r2, s2)"
          by (cases "clearExpiredDiagnoses P now s1")
        with sweep [OF I1] have I2: "?I s2" by simp
        show ?thesis
        proof (cases r2)
          case (Inl sweepError)
          with cd tr \<open>r1 = Inl error\<close> True sw I2 show ?thesis by auto
        next
          case (Inr n)
          obtain r3 s3 where w: "write_entry P ?key ?v s2 = (r3, s3)"
            by (cases "write_entry P ?key ?v s2")
          with wr [OF I2] have "?I s3" by simp
          with cd tr \<open>r1 = Inl error\<close> True sw Inr w show ?thesis
            by (cases r3) auto
        qed
      qed
    qed
  qed
qed

lemma generateDiagnosisCacheKey_differs:
  "generateDiagnosisCacheKey organName' imageHash' \<noteq> imageHash' \<and>
   generateDiagnosisCacheKey organName' imageHash' \<noteq> ''index''"
proof
  have "length (generateDiagnosisCacheKey organName' imageHash') = length organName' + 1 + length imageHash'"
    by (simp add: generateDiagnosisCacheKey_def toLowerCase_def)
  then show "generateDiagnosisCacheKey organName' imageHash' \<noteq> imageHash'" by auto
  have "CHR ''_'' \<in> set (generateDiagnosisCacheKey organName' imageHash')"
    by (simp add: generateDiagnosisCacheKey_def)
  then show "generateDiagnosisCacheKey organName' imageHash' \<noteq> ''index''" by auto
qed

text \<open>A store whose eviction loop has nothing to do.\<close>

lemma cacheDiagnosis_try_room:
  assumes wf: "well_formed s" and room: "indexed_bytes s < max_cache_bytes P"
  shows "cacheDiagnosis_try P key v s = Some (write_entry P key v s)"
proof -
  from room have "isDiagnosisCacheFull P s = Inr False"
    by (simp add: well_formed_full [OF wf] indexed_bytes_def)
  then have "evict_while_full P s = Some (Inr (), s)" by (rule evict_while_full_not_full)
  then show ?thesis by (simp add: cacheDiagnosis_try_def)
qed

text \<open>
  The fingerprint \<open>index\<close>. The record of this fingerprint is written under the key of the
  index record: the write replaces the index by the entry, the registration of the key throws
  a \<open>TypeError\<close> on it, and the store returns \<open>false\<close>. From then on the index is an object:
  every later store throws in \<open>getDiagnosisCacheSize\<close> and returns \<open>false\<close> with nothing
  written, and a lookup of an image with this fingerprint returns the diagnosis of the entry
  that took the place of the index.
\<close>

lemma write_entry_index_fingerprint:
  assumes "next_write s = None"
  shows "write_entry P ''index'' (new_entry P organName' imageHash' diagnosis' now) s =
           (Inl TypeError,
            snd (setItem DIAGNOSIS_CACHE_INDEX_KEY
                   (JSON_stringify P (new_entry P organName' imageHash' diagnosis' now)) s))"
proof -
  let ?v = "new_entry P organName' imageHash' diagnosis' now"
  let ?s2 = "snd (setItem DIAGNOSIS_CACHE_INDEX_KEY (JSON_stringify P ?v) s)"
  have key: "DIAGNOSIS_CACHE_PREFIX @ ''index'' = DIAGNOSIS_CACHE_INDEX_KEY"
    by (simp add: entry_key_eq_index_key)
  have "items ?s2 DIAGNOSIS_CACHE_INDEX_KEY = Some (JSON_stringify P ?v)"
    using assms by (simp add: items_setItem)
  then have "getDiagnosisCacheIndex ?s2 = to_json ?v"
    by (rule getDiagnosisCacheIndex_stringify)
  then have "addToDiagnosisCacheIndex P ''index'' ?s2 = (Inl TypeError, ?s2)"
    by (simp add: to_json_new_entry addToDiagnosisCacheIndex_object)
  then show ?thesis
    by (simp only: write_entry_accepted [OF assms] key)
qed

lemma store_index_fingerprint:
  assumes h: "generateImageHash imageData = ''index''"
    and wf: "well_formed s" and room: "indexed_bytes s < max_cache_bytes P"
    and nw: "next_write s = None"
  shows "cacheDiagnosis P organName' imageData diagnosis' now s =
           Some (Inr False,
                 snd (setItem DIAGNOSIS_CACHE_INDEX_KEY
                        (JSON_stringify P (new_entry P organName' ''index'' diagnosis' now)) s))"
  by (simp add: cacheDiagnosis_cases h cacheDiagnosis_try_room [OF wf room]
      write_entry_index_fingerprint [OF nw])

lemma store_on_broken_index:
  assumes "for_of (getDiagnosisCacheIndex s) = Inl TypeError"
  shows "cacheDiagnosis P organName' imageData diagnosis' now s = Some (Inr False, s)"
proof -
  from assms have "isDiagnosisCacheFull P s = Inl TypeError"
    by (simp add: isDiagnosisCacheFull_def getDiagnosisCacheSize_bytes_def)
  then have "evict_while_full P s = Some (Inl TypeError, s)" by (rule evict_while_full_throws)
  then show ?thesis by (simp add: cacheDiagnosis_cases cacheDiagnosis_try_def)
qed

lemma delete_on_broken_index:
  assumes "\<not> is_array (getDiagnosisCacheIndex s)" and "k \<noteq> ''index''"
  shows "deleteCachedDiagnosis P (JStr k) s = (False, removeItem (DIAGNOSIS_CACHE_PREFIX @ k) s)"
proof -
  have "getDiagnosisCacheIndex (removeItem (DIAGNOSIS_CACHE_PREFIX @ k) s) = getDiagnosisCacheIndex s"
    by (rule getDiagnosisCacheIndex_removeItem [OF assms(2)])
  with assms(1) show ?thesis
    by (cases "getDiagnosisCacheIndex s")
      (simp_all add: deleteCachedDiagnosis_def removeFromDiagnosisCacheIndex_def)
qed

text \<open>The store that an image of fingerprint \<open>index\<close> leaves behind on the empty cache.\<close>

lemma index_fingerprint_on_empty:
  assumes h: "generateImageHash imageData = ''index''"
    and s1: "s1 = snd (setItem DIAGNOSIS_CACHE_INDEX_KEY
                        (JSON_stringify P (new_entry P organName' ''index'' diagnosis' now)) empty_storage)"
    and pos: "0 < max_cache_bytes P"
  shows "cacheDiagnosis P organName' imageData diagnosis' now empty_storage = Some (Inr False, s1)"
    and "getDiagnosisCacheIndex s1 = to_json (new_entry P organName' ''index'' diagnosis' now)"
    and "for_of (getDiagnosisCacheIndex s1) = Inl TypeError"
    and "\<not> is_array (getDiagnosisCacheIndex s1)"
    and "entry_at s1 ''index'' =
           Some \<lparr>organName = JStr organName', imageHash = JStr ''index'',
                 diagnosis = to_json (diagnosis_value diagnosis'),
                 timestamp = of_int now, expiresAt = of_int (now + expiry_ms P)\<rparr>"
proof -
  let ?v = "new_entry P organName' ''index'' diagnosis' now"
  have room: "indexed_bytes empty_storage < max_cache_bytes P" using pos by simp
  show "cacheDiagnosis P organName' imageData diagnosis' now empty_storage = Some (Inr False, s1)"
    unfolding s1 by (rule store_index_fingerprint [OF h well_formed_empty room]) simp
  have it: "items s1 DIAGNOSIS_CACHE_INDEX_KEY = Some (JSON_stringify P ?v)"
    by (simp add: s1 items_setItem)
  then show idx: "getDiagnosisCacheIndex s1 = to_json ?v"
    by (rule getDiagnosisCacheIndex_stringify)
  show "for_of (getDiagnosisCacheIndex s1) = Inl TypeError"
    by (simp add: idx to_json_new_entry)
  show "\<not> is_array (getDiagnosisCacheIndex s1)"
    by (simp add: idx to_json_new_entry)
  have "items s1 (DIAGNOSIS_CACHE_PREFIX @ ''index'') = Some (JSON_stringify P ?v)"
    using it by (simp add: entry_key_eq_index_key [of "''index''", simplified])
  then show "entry_at s1 ''index'' =
           Some \<lparr>organName = JStr organName', imageHash = JStr ''index'',
                 diagnosis = to_json (diagnosis_value diagnosis'),
                 timestamp = of_int now, expiresAt = of_int (now + expiry_ms P)\<rparr>"
    by (rule entry_at_stringify)
qed

subsection \<open>Three stores of the examples\<close>


lemma getDiagnosisCacheIndex_one_expired [simp]:
  "getDiagnosisCacheIndex (one_expired_entry script) = JArr [JStr ''1s00g'']"
  by (simp add: getDiagnosisCacheIndex_def one_expired_entry_def JSON_stringify_def
      DIAGNOSIS_CACHE_PREFIX_def DIAGNOSIS_CACHE_INDEX_KEY_def)

lemma items_one_expired:
  "k \<noteq> ''index'' \<Longrightarrow>
   items (one_expired_entry script) (DIAGNOSIS_CACHE_PREFIX @ k) =
     (if k = ''1s00g''
      then Some (JSON_stringify scenario_params (new_entry scenario_params ''lung'' ''1s00g'' sample_diagnosis 0))
      else None)"
  by (simp add: one_expired_entry_def DIAGNOSIS_CACHE_PREFIX_def DIAGNOSIS_CACHE_INDEX_KEY_def)

lemma faults_one_expired [simp]: "faults (one_expired_entry script) = script"
  by (simp add: one_expired_entry_def)

lemma getDiagnosisCacheIndex_null_index [simp]: "getDiagnosisCacheIndex null_index_storage = JNull"
  by (simp add: getDiagnosisCacheIndex_def null_index_storage_def)

lemma items_null_index:
  "k \<noteq> ''index'' \<Longrightarrow> items null_index_storage (DIAGNOSIS_CACHE_PREFIX @ k) = None"
  by (simp add: null_index_storage_def entry_key_eq_index_key)

lemma getDiagnosisCacheIndex_one_corrupt [simp]:
  "getDiagnosisCacheIndex one_corrupt_record = JArr [JStr ''1s00g'']"
  by (simp add: getDiagnosisCacheIndex_def one_corrupt_record_def JSON_stringify_def
      DIAGNOSIS_CACHE_PREFIX_def DIAGNOSIS_CACHE_INDEX_KEY_def)

lemma items_one_corrupt:
  "items one_corrupt_record (DIAGNOSIS_CACHE_PREFIX @ ''1s00g'') = Some (Not_json 7)"
  by (simp add: one_corrupt_record_def DIAGNOSIS_CACHE_PREFIX_def DIAGNOSIS_CACHE_INDEX_KEY_def)

lemma well_formed_one_expired: "well_formed (one_expired_entry script)"
  by (simp add: well_formed_def string_keys_def entry_at_stringify [OF items_one_expired [of "''1s00g''", simplified]])

lemma indexed_keys_one_expired [simp]: "indexed_keys (one_expired_entry script) = [''1s00g'']"
  by (simp add: indexed_keys_def string_keys_def)

lemma indexed_bytes_one_expired [simp]: "indexed_bytes (one_expired_entry script) = 40"
  by (simp add: indexed_bytes_def entry_bytes_stringify [OF items_one_expired [of "''1s00g''", simplified]]
      scenario_params_def)

section \<open>Eviction: oldest first, before the write\<close>


lemma entry_at_delete_same: "entry_at (snd (deleteCachedDiagnosis P (JStr k) s)) k = None"
proof (cases "k = ''index''")
  case False
  then show ?thesis by (simp add: entry_at_delete)
next
  case True
  let ?s1 = "removeItem (DIAGNOSIS_CACHE_PREFIX @ k) s"
  have key: "DIAGNOSIS_CACHE_PREFIX @ k = DIAGNOSIS_CACHE_INDEX_KEY"
    using True by (simp add: entry_key_eq_index_key)
  have idx: "getDiagnosisCacheIndex ?s1 = JArr []"
    by (simp add: key getDiagnosisCacheIndex_removeItem_index)
  have s': "snd (deleteCachedDiagnosis P (JStr k) s) = updateDiagnosisCacheIndex P (JArr []) ?s1"
    by (simp add: deleteCachedDiagnosis_def removeFromDiagnosisCacheIndex_def idx)
  have "items (updateDiagnosisCacheIndex P (JArr []) ?s1) DIAGNOSIS_CACHE_INDEX_KEY = None \<or>
        items (updateDiagnosisCacheIndex P (JArr []) ?s1) DIAGNOSIS_CACHE_INDEX_KEY =
          Some (JSON_stringify P (JArr []))"
    by (simp add: updateDiagnosisCacheIndex_def items_setItem key)
  then show ?thesis
    unfolding s' by (auto simp: entry_at_def record_at_def key JSON_stringify_def as_entry_def)
qed




section \<open>Expiry on lookup\<close>


text \<open>
  Claim C3. A lookup never returns an expired entry. When the record stored under the
  fingerprint of the image is past its \<open>expiresAt\<close>, the lookup deletes it and reports absent;
  and after a successful store at time \<open>t0\<close>, a lookup of the same image at any time later than
  \<open>t0\<close> plus the time to live reports absent.
\<close>

theorem lookup_never_returns_expired:
  "(entry_at s (generateImageHash imageData) = Some cached \<and> expiresAt cached < of_int now \<longrightarrow>
      getCachedDiagnosis P imageData now s =
        (JNull, snd (deleteCachedDiagnosis P (JStr (generateImageHash imageData)) s)) \<and>
      entry_at (snd (getCachedDiagnosis P imageData now s)) (generateImageHash imageData) = None) \<and>
   (cacheDiagnosis P organName' imageData diagnosis' t0 s0 = Some (Inr True, s) \<and> t0 + expiry_ms P < now \<longrightarrow>
      fst (getCachedDiagnosis P imageData now s) = JNull)"
proof (intro conjI impI)
  assume a: "entry_at s (generateImageHash imageData) = Some cached \<and> expiresAt cached < of_int now"
  then show "getCachedDiagnosis P imageData now s =
      (JNull, snd (deleteCachedDiagnosis P (JStr (generateImageHash imageData)) s))"
    by (simp add: getCachedDiagnosis_entry)
  then show "entry_at (snd (getCachedDiagnosis P imageData now s)) (generateImageHash imageData) = None"
    by (simp add: entry_at_delete_same)
next
  assume a: "cacheDiagnosis P organName' imageData diagnosis' t0 s0 = Some (Inr True, s) \<and> t0 + expiry_ms P < now"
  then have "of_int (t0 + expiry_ms P) < (of_int now :: real)" by (simp only: of_int_less_iff)
  with entry_after_store [of P organName' imageData diagnosis' t0 s0 s] a
  show "fst (getCachedDiagnosis P imageData now s) = JNull"
    by (simp add: getCachedDiagnosis_entry)
qed

theorem lookup_never_returns_expired_witness:
  "\<exists>s. cacheDiagnosis scenario_params ''lung'' ''a'' sample_diagnosis 0 empty_storage = Some (Inr True, s) \<and>
       getCachedDiagnosis scenario_params ''a'' 1500 s =
         (JNull, snd (deleteCachedDiagnosis scenario_params (JStr (generateImageHash ''a'')) s)) \<and>
       entry_at (snd (getCachedDiagnosis scenario_params ''a'' 1500 s)) (generateImageHash ''a'') = None \<and>
       fst (getCachedDiagnosis scenario_params ''a'' 1500 s) = JNull"
proof -
  let ?P = scenario_params
  have room: "indexed_bytes empty_storage < max_cache_bytes ?P" by (simp add: scenario_params_def)
  from store_effect [OF well_formed_empty faults_empty room, of "''a''" "''lung''" sample_diagnosis 0]
  obtain s where s: "cacheDiagnosis ?P ''lung'' ''a'' sample_diagnosis 0 empty_storage = Some (Inr True, s)"
    by (auto simp: hash_a)
  let ?c = "\<lparr>organName = JStr ''lung'', imageHash = JStr (generateImageHash ''a''),
             diagnosis = to_json (diagnosis_value sample_diagnosis),
             timestamp = of_int 0, expiresAt = of_int (0 + expiry_ms ?P)\<rparr>"
  have e: "entry_at s (generateImageHash ''a'') = Some ?c"
    by (rule entry_after_store [OF s])
  have x: "expiresAt ?c < of_int 1500" and t: "0 + expiry_ms ?P < 1500"
    by (simp_all add: scenario_params_def)
  from lookup_never_returns_expired
    [of s "''a''" ?c 1500 ?P "''lung''" sample_diagnosis 0 empty_storage] e x t s
  have "getCachedDiagnosis ?P ''a'' 1500 s =
          (JNull, snd (deleteCachedDiagnosis ?P (JStr (generateImageHash ''a'')) s)) \<and>
       entry_at (snd (getCachedDiagnosis ?P ''a'' 1500 s)) (generateImageHash ''a'') = None \<and>
       fst (getCachedDiagnosis ?P ''a'' 1500 s) = JNull"
    by blast
  with s show ?thesis by blast
qed

text \<open>The same holds of any stored value, entry or not, for which the test
  \<open>Date.now() > cached.expiresAt\<close> is true.\<close>

lemma lookup_deletes_when_past_expiresAt:
  assumes "record_at s (generateImageHash imageData) = Some v" and "get_prop v ''expiresAt'' = Inr e"
    and "js_gt P (Date_now now) e"
  shows "getCachedDiagnosis P imageData now s =
        (JNull, snd (deleteCachedDiagnosis P (JStr (generateImageHash imageData)) s))"
  using assms by (simp add: getCachedDiagnosis_record)

section \<open>The round trip\<close>


text \<open>
  Claim C4, as amended. For every image, organ name and diagnosis, a store that reports
  success followed by a lookup of the same image, before the time to live has elapsed, returns
  the diagnosis as JSON gives it back, and leaves the store as it is: the diagnosis itself when
  its two numbers are finite, and the diagnosis with \<open>null\<close> in the place of a number that is
  \<open>NaN\<close> or infinite. The budget plays no part: a store that succeeds has written its entry
  whatever the total.
\<close>

theorem store_then_lookup:
  assumes "cacheDiagnosis P organName' imageData diagnosis' t0 s = Some (Inr True, s')"
    and "now \<le> t0 + expiry_ms P"
  shows "getCachedDiagnosis P imageData now s' = (to_json (diagnosis_value diagnosis'), s') \<and>
         (\<forall>x y. confidenceLevel diagnosis' = Finite x \<and> statusRating diagnosis' = Finite y \<longrightarrow>
            getCachedDiagnosis P imageData now s' = (diagnosis_value diagnosis', s'))"
proof -
  from assms(2) have "\<not> of_int (t0 + expiry_ms P) < (of_int now :: real)"
    by (simp only: of_int_less_iff)
  with entry_after_store [OF assms(1)]
  have "getCachedDiagnosis P imageData now s' = (to_json (diagnosis_value diagnosis'), s')"
    by (simp add: getCachedDiagnosis_entry)
  then show ?thesis
    by (auto simp: to_json_diagnosis_value_finite)
qed

theorem store_then_lookup_witness:
  "\<exists>s. cacheDiagnosis scenario_params ''lung'' ''a'' sample_diagnosis 0 empty_storage = Some (Inr True, s) \<and>
       getCachedDiagnosis scenario_params ''a'' 500 s = (to_json (diagnosis_value sample_diagnosis), s) \<and>
       getCachedDiagnosis scenario_params ''a'' 500 s = (diagnosis_value sample_diagnosis, s)"
proof -
  let ?P = scenario_params
  have room: "indexed_bytes empty_storage < max_cache_bytes ?P" by (simp add: scenario_params_def)
  from store_effect [OF well_formed_empty faults_empty room, of "''a''" "''lung''" sample_diagnosis 0]
  obtain s where s: "cacheDiagnosis ?P ''lung'' ''a'' sample_diagnosis 0 empty_storage = Some (Inr True, s)"
    by (auto simp: hash_a)
  have t: "(500 :: int) \<le> 0 + expiry_ms ?P" by (simp add: scenario_params_def)
  have f: "confidenceLevel sample_diagnosis = Finite 0.9 \<and> statusRating sample_diagnosis = Finite 5"
    by (simp add: sample_diagnosis_def)
  from store_then_lookup [OF s t] f
  have "getCachedDiagnosis ?P ''a'' 500 s = (to_json (diagnosis_value sample_diagnosis), s) \<and>
        getCachedDiagnosis ?P ''a'' 500 s = (diagnosis_value sample_diagnosis, s)"
    by blast
  with s show ?thesis by blast
qed

text \<open>
  The claim as stated fails for a diagnosis whose confidence is \<open>NaN\<close>: the store succeeds, and
  the lookup returns a diagnosis whose confidence is \<open>null\<close>.
\<close>

theorem round_trip_counterexample:
  "result_after scenario_params [] 0
     (Store_call ''lung'' ''a'' (sample_diagnosis\<lparr>confidenceLevel := NaN\<rparr>)) empty_storage = Some (Stored True) \<and>
   result_after scenario_params
     [(0, Store_call ''lung'' ''a'' (sample_diagnosis\<lparr>confidenceLevel := NaN\<rparr>))] 500
     (Lookup_call ''a'') empty_storage =
     Some (Found (JObj [(''organ'', JStr ''lung''), (''healthStatus'', JStr ''Healthy''),
                        (''disease'', JStr ''N/A''), (''confidenceLevel'', JNull),
                        (''statusRating'', JNum (Finite 5)), (''detailedFindings'', JStr ''clear''),
                        (''treatmentSuggestion'', JStr ''none'')])) \<and>
   diagnosis_value (sample_diagnosis\<lparr>confidenceLevel := NaN\<rparr>) =
     JObj [(''organ'', JStr ''lung''), (''healthStatus'', JStr ''Healthy''),
           (''disease'', JStr ''N/A''), (''confidenceLevel'', JNum NaN),
           (''statusRating'', JNum (Finite 5)), (''detailedFindings'', JStr ''clear''),
           (''treatmentSuggestion'', JStr ''none'')]"
proof -
  let ?P = scenario_params
  let ?d = "sample_diagnosis\<lparr>confidenceLevel := NaN\<rparr>"
  have room: "indexed_bytes empty_storage < max_cache_bytes ?P" by (simp add: scenario_params_def)
  from store_effect [OF well_formed_empty faults_empty room, of "''a''" "''lung''" ?d 0]
  obtain s where s: "cacheDiagnosis ?P ''lung'' ''a'' ?d 0 empty_storage = Some (Inr True, s)"
    by (auto simp: hash_a)
  have t: "(500 :: int) \<le> 0 + expiry_ms ?P" by (simp add: scenario_params_def)
  from store_then_lookup [OF s t]
  have look: "getCachedDiagnosis ?P ''a'' 500 s = (to_json (diagnosis_value ?d), s)" by simp
  have v: "to_json (diagnosis_value ?d) =
      JObj [(''organ'', JStr ''lung''), (''healthStatus'', JStr ''Healthy''),
            (''disease'', JStr ''N/A''), (''confidenceLevel'', JNull),
            (''statusRating'', JNum (Finite 5)), (''detailedFindings'', JStr ''clear''),
            (''treatmentSuggestion'', JStr ''none'')]"
    by (simp add: to_json_diagnosis_value sample_diagnosis_def)
  have "result_after ?P [] 0 (Store_call ''lung'' ''a'' ?d) empty_storage = Some (Stored True)"
    by (simp add: result_after_def s)
  moreover have "result_after ?P [(0, Store_call ''lung'' ''a'' ?d)] 500 (Lookup_call ''a'') empty_storage =
      Some (Found (to_json (diagnosis_value ?d)))"
    by (simp add: result_after_def s look)
  moreover have "diagnosis_value ?d =
     JObj [(''organ'', JStr ''lung''), (''healthStatus'', JStr ''Healthy''),
           (''disease'', JStr ''N/A''), (''confidenceLevel'', JNum NaN),
           (''statusRating'', JNum (Finite 5)), (''detailedFindings'', JStr ''clear''),
           (''treatmentSuggestion'', JStr ''none'')]"
    by (simp add: diagnosis_value_def sample_diagnosis_def)
  ultimately show ?thesis by (simp only: v) simp
qed

section \<open>The storage key\<close>





section \<open>The fingerprint\<close>


text \<open>
  Claim C9. The fingerprint is a function of the image alone: the source reads its argument
  and nothing else (no clock, no storage, no random source), so the model has no other
  argument. It is moreover a function of the three sampled sections and the length alone: two
  images of the same length with the same samples have the same fingerprint. In particular two
  calls on the same image return the same string.
\<close>

theorem generateImageHash_deterministic:
  assumes "length a = length b"
    and "substring a 0 (min 5000 (length a)) = substring b 0 (min 5000 (length b))"
    and "substring a (length a div 2) (length a div 2 + min 5000 (length a)) =
         substring b (length b div 2) (length b div 2 + min 5000 (length b))"
    and "substring a (nat (max 0 (int (length a) - 5000))) (length a) =
         substring b (nat (max 0 (int (length b) - 5000))) (length b)"
  shows "generateImageHash a = generateImageHash b"
  using assms by (simp add: generateImageHash_def Let_def)

theorem generateImageHash_deterministic_witness:
  "generateImageHash (replicate 20000 CHR ''A'') =
   generateImageHash ((replicate 20000 CHR ''A'')[7000 := CHR ''B''])"
proof (rule generateImageHash_deterministic)
  let ?a = "replicate 20000 CHR ''A''"
  let ?b = "?a[7000 := CHR ''B'']"
  show "length ?a = length ?b" by simp
  show "substring ?a 0 (min 5000 (length ?a)) = substring ?b 0 (min 5000 (length ?b))"
    by (simp add: substring_def)
  show "substring ?a (length ?a div 2) (length ?a div 2 + min 5000 (length ?a)) =
        substring ?b (length ?b div 2) (length ?b div 2 + min 5000 (length ?b))"
    by (simp add: substring_def drop_update_cancel)
  show "substring ?a (nat (max 0 (int (length ?a) - 5000))) (length ?a) =
        substring ?b (nat (max 0 (int (length ?b) - 5000))) (length ?b)"
    by (simp add: substring_def drop_update_cancel)
qed


lemma sampled_images_differ:
  "replicate 20000 CHR ''A'' \<noteq> (replicate 20000 CHR ''A'')[7000 := CHR ''B'']"
proof
  assume "replicate 20000 CHR ''A'' = (replicate 20000 CHR ''A'')[7000 := CHR ''B'']"
  then have "replicate 20000 CHR ''A'' ! 7000 = (replicate 20000 CHR ''A'')[7000 := CHR ''B''] ! 7000"
    by simp
  then show False by simp
qed

section \<open>Deleting an absent key\<close>


lemma removeItem_absent: "items s k = None \<Longrightarrow> removeItem k s = s"
  by (simp add: removeItem_def fun_upd_idem)




end
